theory Spec2Isabelle
  imports Main
begin

section \<open>Text primitives of the scraper\<close>

text \<open>
  Python strings are modelled as \<open>string\<close> (lists of \<open>char\<close>), one \<open>char\<close> per code
  point; the model therefore covers text whose code points are below 256. On that range
  the characters for which \<^verbatim>\<open>str.isspace\<close> holds, which are also the ones matched by
  the regular expression class \<^verbatim>\<open>\s\<close> on \<^verbatim>\<open>str\<close> patterns and removed by
  \<^verbatim>\<open>str.strip()\<close>, are the twelve listed below.
\<close>

definition whitespace_chars :: "char list" where
  "whitespace_chars =
     [CHR 0x09, CHR 0x0A, CHR 0x0B, CHR 0x0C, CHR 0x0D,
      CHR 0x1C, CHR 0x1D, CHR 0x1E, CHR 0x1F, CHR 0x20, CHR 0x85, CHR 0xA0]"

definition isspace :: "char \<Rightarrow> bool" where
  "isspace c = (c \<in> set whitespace_chars)"

text \<open>\<^verbatim>\<open>re.sub(r"\s+", " ", s)\<close>: every maximal run of whitespace becomes one space.\<close>

function re_sub_ws :: "string \<Rightarrow> string" where
  "re_sub_ws [] = []"
| "re_sub_ws (c # cs) =
     (if isspace c then CHR '' '' # re_sub_ws (dropWhile isspace cs)
      else c # re_sub_ws cs)"
  by pat_completeness auto
termination
  by (relation "measure length") (auto simp: length_dropWhile_le less_Suc_eq_le)

text \<open>\<^verbatim>\<open>str.strip()\<close>: whitespace removed at both ends.\<close>

definition lstrip :: "string \<Rightarrow> string" where
  "lstrip s = dropWhile isspace s"

definition rstrip :: "string \<Rightarrow> string" where
  "rstrip s = rev (dropWhile isspace (rev s))"

definition strip :: "string \<Rightarrow> string" where
  "strip s = rstrip (lstrip s)"

text \<open>\<^verbatim>\<open>_norm_space(s) = re.sub(r"\s+", " ", s or "").strip()\<close>\<close>

definition norm_space :: "string \<Rightarrow> string" where
  "norm_space s = strip (re_sub_ws s)"

text \<open>
  \<^verbatim>\<open>str.lower()\<close> on code points below 256: the letters A to Z and the upper-case
  letters of the Latin-1 block (0xC0 to 0xDE without the multiplication sign 0xD7) move
  up by 32, every other character is kept.
\<close>

definition lower_char :: "char \<Rightarrow> char" where
  "lower_char c =
     (let n = (of_char c :: nat)
      in if (65 \<le> n \<and> n \<le> 90) \<or> (192 \<le> n \<and> n \<le> 222 \<and> n \<noteq> 215)
         then char_of (n + 32) else c)"

definition lower :: "string \<Rightarrow> string" where
  "lower s = map lower_char s"

text \<open>\<^verbatim>\<open>s.startswith(p)\<close> and the substring test \<^verbatim>\<open>p in s\<close>.\<close>

definition startswith :: "string \<Rightarrow> string \<Rightarrow> bool" where
  "startswith s p = (take (length p) s = p)"

fun contains :: "string \<Rightarrow> string \<Rightarrow> bool" where
  "contains [] p = (p = [])"
| "contains (c # cs) p = (startswith (c # cs) p \<or> contains cs p)"

section \<open>Output records and their serialisation\<close>

text \<open>
  A \<^verbatim>\<open>datetime.date\<close> is its three fields; \<^verbatim>\<open>Row\<close> is the frozen dataclass of the
  source (the fields \<^verbatim>\<open>unit\<close>, \<^verbatim>\<open>power\<close>, \<^verbatim>\<open>reason\<close> carry the prefix \<open>row_\<close>, as
  \<open>power\<close> and \<open>unit\<close> are names of HOL).
\<close>

record date =
  year :: nat
  month :: nat
  day :: nat

record Row =
  report_date :: date
  row_unit :: string
  row_power :: string
  row_reason :: string

text \<open>Decimal rendering of a number, as an f-string prints an \<^verbatim>\<open>int\<close> field.\<close>

definition digit_char :: "nat \<Rightarrow> char" where
  "digit_char n = ''0123456789'' ! n"

function str_nat :: "nat \<Rightarrow> string" where
  "str_nat n = (if n < 10 then [digit_char n] else str_nat (n div 10) @ [digit_char (n mod 10)])"
  by pat_completeness auto
termination
  by (relation "measure id") auto

declare str_nat.simps [simp del]

text \<open>\<^verbatim>\<open>_safe_psv_field(s) = (s or "").replace("|", " ").strip()\<close>\<close>

definition replace_bar :: "string \<Rightarrow> string" where
  "replace_bar s = map (\<lambda>c. if c = CHR ''|'' then CHR '' '' else c) s"

definition safe_psv_field :: "string \<Rightarrow> string" where
  "safe_psv_field s = strip (replace_bar s)"

definition to_psv :: "Row \<Rightarrow> string" where
  "to_psv r =
     (let d = str_nat (month (report_date r)) @ ''/'' @ str_nat (day (report_date r)) @ ''/''
              @ str_nat (year (report_date r))
      in d @ ''|'' @ safe_psv_field (row_unit r) @ ''|'' @ safe_psv_field (row_power r)
           @ ''|'' @ safe_psv_field (row_reason r))"

section \<open>The table extractor\<close>

text \<open>
  \<^verbatim>\<open>_TableExtractor\<close> subclasses \<^verbatim>\<open>html.parser.HTMLParser\<close> of the Python standard
  library, whose \<^verbatim>\<open>feed\<close> turns the document text into a sequence of calls of the three
  handlers the class overrides. That sequence is the input of the handlers: one \<open>event\<close>
  per handler call, in document order (a self-closing tag is a start tag followed by an
  end tag; attributes are dropped, as no handler reads them). That \<^verbatim>\<open>feed\<close> can raise
  instead of completing is modelled with \<open>parse_rows_text\<close> below.
\<close>

datatype event = StartTag string | EndTag string | Data string

record extractor =
  in_table :: nat
  in_tr :: bool
  in_cell :: bool
  cell_buf :: "string list"
  current_row :: "string list"
  current_table :: "string list list"
  tables :: "string list list list"

text \<open>\<^verbatim>\<open>__init__\<close>\<close>

definition TableExtractor_init :: extractor where
  "TableExtractor_init =
     \<lparr>in_table = 0, in_tr = False, in_cell = False, cell_buf = [], current_row = [],
      current_table = [], tables = []\<rparr>"

text \<open>
  The handlers are sequences of independent \<^verbatim>\<open>if\<close> statements, each reading the state
  the previous one left; \<open>s1\<close>, \<open>s2\<close>, ... are the states between them.
\<close>

definition handle_starttag :: "extractor \<Rightarrow> string \<Rightarrow> extractor" where
  "handle_starttag s tag0 =
     (let tag = lower tag0;
          s1 = (if tag = ''table''
                then (let s' = s\<lparr>in_table := in_table s + 1\<rparr>
                      in if in_table s' = 1 then s'\<lparr>current_table := []\<rparr> else s')
                else s);
          s2 = (if in_table s1 \<ge> 1 \<and> tag = ''tr''
                then s1\<lparr>in_tr := True, current_row := []\<rparr> else s1);
          s3 = (if in_table s2 \<ge> 1 \<and> in_tr s2 \<and> (tag = ''td'' \<or> tag = ''th'')
                then s2\<lparr>in_cell := True, cell_buf := []\<rparr> else s2);
          s4 = (if in_table s3 \<ge> 1 \<and> in_cell s3 \<and> (tag = ''br'' \<or> tag = ''p'')
                then s3\<lparr>cell_buf := cell_buf s3 @ ['' '']\<rparr> else s3)
      in s4)"

text \<open>\<^verbatim>\<open>any(c.strip() for c in row)\<close>: some cell is non-empty after stripping.\<close>

definition any_nonblank :: "string list \<Rightarrow> bool" where
  "any_nonblank row = list_ex (\<lambda>c. strip c \<noteq> []) row"

definition handle_endtag :: "extractor \<Rightarrow> string \<Rightarrow> extractor" where
  "handle_endtag s tag0 =
     (let tag = lower tag0;
          s1 = (if in_table s \<ge> 1 \<and> in_tr s \<and> (tag = ''td'' \<or> tag = ''th'') \<and> in_cell s
                then (let cell_text = norm_space (concat (cell_buf s))
                      in s\<lparr>in_cell := False, current_row := current_row s @ [cell_text],
                           cell_buf := []\<rparr>)
                else s);
          s2 = (if in_table s1 \<ge> 1 \<and> tag = ''tr'' \<and> in_tr s1
                then (let s' = s1\<lparr>in_tr := False\<rparr>;
                          s'' = (if any_nonblank (current_row s')
                                 then s'\<lparr>current_table := current_table s' @ [current_row s']\<rparr>
                                 else s')
                      in s''\<lparr>current_row := []\<rparr>)
                else s1);
          s3 = (if tag = ''table'' \<and> in_table s2 \<ge> 1
                then (let s' = s2\<lparr>in_table := in_table s2 - 1\<rparr>
                      in if in_table s' = 0
                         then (let s'' = (if current_table s' \<noteq> []
                                          then s'\<lparr>tables := tables s' @ [current_table s']\<rparr>
                                          else s')
                               in s''\<lparr>current_table := []\<rparr>)
                         else s')
                else s2)
      in s3)"

definition handle_data :: "extractor \<Rightarrow> string \<Rightarrow> extractor" where
  "handle_data s data =
     (if in_table s \<ge> 1 \<and> in_cell s then s\<lparr>cell_buf := cell_buf s @ [data]\<rparr> else s)"

fun dispatch :: "extractor \<Rightarrow> event \<Rightarrow> extractor" where
  "dispatch s (StartTag tag) = handle_starttag s tag"
| "dispatch s (EndTag tag) = handle_endtag s tag"
| "dispatch s (Data data) = handle_data s data"

text \<open>\<^verbatim>\<open>parser.feed(html)\<close>: the handlers run over the events from left to right.\<close>

fun feed :: "extractor \<Rightarrow> event list \<Rightarrow> extractor" where
  "feed s [] = s"
| "feed s (e # es) = feed (dispatch s e) es"

section \<open>The row classifier\<close>

text \<open>
  Two operations of \<^verbatim>\<open>parse_rows\<close> can raise: list indexing, modelled with its
  \<^verbatim>\<open>IndexError\<close> (the indices of the source are never negative), and the call
  \<^verbatim>\<open>parser.feed(html)\<close>, in which the tokenizer of the standard library raises
  \<^verbatim>\<open>AssertionError\<close> on some texts.
\<close>

datatype error = IndexError | AssertionError

definition getitem :: "'a list \<Rightarrow> nat \<Rightarrow> error + 'a" where
  "getitem xs i = (if i < length xs then Inr (xs ! i) else Inl IndexError)"

text \<open>\<^verbatim>\<open>_find_col_idx\<close>: the loop over \<^verbatim>\<open>enumerate(headers)\<close>, \<open>i\<close> the running index.\<close>

fun find_col_from :: "nat \<Rightarrow> string list \<Rightarrow> (string \<Rightarrow> bool) \<Rightarrow> nat option" where
  "find_col_from i [] pred = None"
| "find_col_from i (h # hs) pred = (if pred h then Some i else find_col_from (Suc i) hs pred)"

definition find_col_idx :: "string list \<Rightarrow> (string \<Rightarrow> bool) \<Rightarrow> nat option" where
  "find_col_idx headers pred = find_col_from 0 headers pred"

definition unit_pred :: "string \<Rightarrow> bool" where
  "unit_pred h = (h = ''unit'' \<or> startswith h ''unit '')"

definition power_pred :: "string \<Rightarrow> bool" where
  "power_pred h = (h = ''power'' \<or> startswith h ''power '')"

definition reason_pred :: "string \<Rightarrow> bool" where
  "reason_pred h = (contains h ''reason'' \<and> contains h ''comment'')"

text \<open>
  The header search: the loop over \<^verbatim>\<open>enumerate(table)\<close> that stops at the first row
  passing the test, returning \<^verbatim>\<open>(header_row_idx, headers)\<close>, which stay
  \<^verbatim>\<open>(None, [])\<close> when the loop runs to its end.
\<close>

definition lowered_row :: "string list \<Rightarrow> string list" where
  "lowered_row row = map (\<lambda>c. lower (norm_space c)) row"

definition header_test :: "string list \<Rightarrow> bool" where
  "header_test lowered =
     (list_ex (\<lambda>c. c = ''unit'') lowered
      \<and> list_ex (\<lambda>c. startswith c ''power'' \<or> c = ''power'') lowered)"

fun find_header_from :: "nat \<Rightarrow> string list list \<Rightarrow> nat option \<times> string list" where
  "find_header_from ridx [] = (None, [])"
| "find_header_from ridx (row # rest) =
     (let lowered = lowered_row row
      in if header_test lowered then (Some ridx, lowered)
         else find_header_from (Suc ridx) rest)"

text \<open>
  The body of the loop over the rows after the header: \<open>out\<close> is the list of records
  so far, and a \<^verbatim>\<open>continue\<close> returns it unchanged. An index read that raises ends
  the whole computation with its error (\<open>bind_result\<close>).
\<close>

definition bind_result :: "error + 'a \<Rightarrow> ('a \<Rightarrow> error + 'b) \<Rightarrow> error + 'b" where
  "bind_result m f = (case m of Inl e \<Rightarrow> Inl e | Inr x \<Rightarrow> f x)"

definition read_reason :: "nat option \<Rightarrow> string list \<Rightarrow> error + string" where
  "read_reason reason_idx row =
     (case reason_idx of
        None \<Rightarrow> Inr []
      | Some ri \<Rightarrow>
          (if ri < length row
           then bind_result (getitem row ri) (\<lambda>r. Inr (norm_space r))
           else Inr []))"

definition row_step ::
  "date \<Rightarrow> nat \<Rightarrow> nat \<Rightarrow> nat option \<Rightarrow> Row list \<Rightarrow> string list \<Rightarrow> error + Row list" where
  "row_step d unit_idx power_idx reason_idx out row =
     (if unit_idx \<ge> length row \<or> power_idx \<ge> length row then Inr out
      else
        bind_result (getitem row unit_idx) (\<lambda>u.
        bind_result (getitem row power_idx) (\<lambda>p.
        bind_result (read_reason reason_idx row) (\<lambda>reason.
          (let unit_v = norm_space u; power_v = norm_space p
           in if unit_v = [] \<or> lower unit_v = ''unit'' then Inr out
              else Inr (out @ [\<lparr>report_date = d, row_unit = unit_v, row_power = power_v,
                                 row_reason = reason\<rparr>]))))))"

fun rows_loop ::
  "date \<Rightarrow> nat \<Rightarrow> nat \<Rightarrow> nat option \<Rightarrow> Row list \<Rightarrow> string list list \<Rightarrow> error + Row list" where
  "rows_loop d unit_idx power_idx reason_idx out [] = Inr out"
| "rows_loop d unit_idx power_idx reason_idx out (row # rest) =
     (case row_step d unit_idx power_idx reason_idx out row of
        Inl e \<Rightarrow> Inl e
      | Inr out' \<Rightarrow> rows_loop d unit_idx power_idx reason_idx out' rest)"

text \<open>The body of the loop over the tables.\<close>

definition table_step :: "date \<Rightarrow> Row list \<Rightarrow> string list list \<Rightarrow> error + Row list" where
  "table_step d out table =
     (case find_header_from 0 table of (header_row_idx, headers) \<Rightarrow>
        if header_row_idx = None \<or> headers = [] then Inr out
        else
          (let unit_idx = find_col_idx headers unit_pred;
               power_idx = find_col_idx headers power_pred;
               reason_idx = find_col_idx headers reason_pred
           in if unit_idx = None \<or> power_idx = None then Inr out
              else rows_loop d (the unit_idx) (the power_idx) reason_idx out
                     (drop (the header_row_idx + 1) table)))"

fun tables_loop :: "date \<Rightarrow> Row list \<Rightarrow> string list list list \<Rightarrow> error + Row list" where
  "tables_loop d out [] = Inr out"
| "tables_loop d out (table # rest) =
     (case table_step d out table of Inl e \<Rightarrow> Inl e | Inr out' \<Rightarrow> tables_loop d out' rest)"

text \<open>
  \<^verbatim>\<open>parse_rows\<close> from the handler calls on: a new extractor, the calls that
  \<^verbatim>\<open>parser.feed(html)\<close> makes (the argument \<open>html\<close> is their sequence), and the loop
  over \<^verbatim>\<open>parser.tables\<close>.
\<close>

definition parse_rows :: "date \<Rightarrow> event list \<Rightarrow> error + Row list" where
  "parse_rows d html = tables_loop d [] (tables (feed TableExtractor_init html))"

section \<open>The tokenizer and the text\<close>

text \<open>
  \<^verbatim>\<open>parser.feed(html)\<close> runs \<^verbatim>\<open>HTMLParser.goahead\<close> of the standard library over the
  text. Its outcome is either an exception or the sequence of handler calls it made.
  One path of it is modelled here from its source (CPython 3.11, \<^verbatim>\<open>html/parser.py\<close> and
  \<^verbatim>\<open>_markupbase.py\<close>): a text that begins with \<^verbatim>\<open><![\<close> is passed by \<^verbatim>\<open>goahead\<close> to
  \<^verbatim>\<open>parse_html_declaration\<close> and from there to \<^verbatim>\<open>parse_marked_section\<close>.

  \<^verbatim>\<open>_scan_name\<close> matches \<^verbatim>\<open>[a-zA-Z][-_.a-zA-Z0-9]*\s*\<close> at the start of the text after
  \<^verbatim>\<open><![\<close>: it raises when there is no match, it reports the end of the buffer
  (\<open>Inr None\<close>) when the text is empty or the match reaches its end, and it returns the
  stripped, lower-cased match with the text after it otherwise.
\<close>

definition ascii_letters :: "char list" where
  "ascii_letters = ''abcdefghijklmnopqrstuvwxyzABCDEFGHIJKLMNOPQRSTUVWXYZ''"

definition is_name_start :: "char \<Rightarrow> bool" where
  "is_name_start c = (c \<in> set ascii_letters)"

definition is_name_char :: "char \<Rightarrow> bool" where
  "is_name_char c = (c \<in> set (ascii_letters @ ''0123456789-_.''))"

definition scan_name :: "string \<Rightarrow> error + (string \<times> string) option" where
  "scan_name rest =
     (case rest of
        [] \<Rightarrow> Inr None
      | c # _ \<Rightarrow>
          if is_name_start c
          then (let m = takeWhile is_name_char rest
                        @ takeWhile isspace (dropWhile is_name_char rest);
                    after = dropWhile isspace (dropWhile is_name_char rest)
                in if after = [] then Inr None else Inr (Some (lower (strip m), after)))
          else Inl AssertionError)"

text \<open>
  The closing patterns \<^verbatim>\<open>]\s*]\s*>\<close> and \<^verbatim>\<open>]\s*>\<close> matched at the start of a text
  (the result is the text after the match), and \<^verbatim>\<open>search\<close>, which takes the first
  position at which a pattern matches.
\<close>

definition match_ms_close :: "string \<Rightarrow> string option" where
  "match_ms_close t =
     (case t of
        [] \<Rightarrow> None
      | c # u \<Rightarrow>
          if c = CHR '']''
          then (case dropWhile isspace u of
                  [] \<Rightarrow> None
                | g # v \<Rightarrow> if g = CHR ''>'' then Some v else None)
          else None)"

definition match_close :: "string \<Rightarrow> string option" where
  "match_close t =
     (case t of
        [] \<Rightarrow> None
      | c # u \<Rightarrow> if c = CHR '']'' then match_ms_close (dropWhile isspace u) else None)"

fun re_search :: "(string \<Rightarrow> string option) \<Rightarrow> string \<Rightarrow> string option" where
  "re_search m [] = None"
| "re_search m (c # cs) = (case m (c # cs) of Some v \<Rightarrow> Some v | None \<Rightarrow> re_search m cs)"

text \<open>
  \<^verbatim>\<open>parse_marked_section\<close> on the text after \<^verbatim>\<open><![\<close>: an exception, or \<open>Inr None\<close> for
  the result \<^verbatim>\<open>-1\<close> (the section is not complete yet), or the text after the section.
  The report of the section goes to \<^verbatim>\<open>unknown_decl\<close>, which does nothing.
\<close>

definition parse_marked_section :: "string \<Rightarrow> error + string option" where
  "parse_marked_section rest =
     (case scan_name rest of
        Inl e \<Rightarrow> Inl e
      | Inr None \<Rightarrow> Inr None
      | Inr (Some (sectName, j)) \<Rightarrow>
          if sectName \<in> set [''temp'', ''cdata'', ''ignore'', ''include'', ''rcdata'']
          then Inr (re_search match_close rest)
          else if sectName \<in> set [''if'', ''else'', ''endif'']
          then Inr (re_search match_ms_close rest)
          else Inl AssertionError)"

text \<open>
  \<^verbatim>\<open>feed\<close> on a text: when the text begins with a marked section, the exception of
  \<^verbatim>\<open>parse_marked_section\<close> leaves \<^verbatim>\<open>feed\<close>, an incomplete section stops the loop with
  no handler call made, and after a complete section the loop goes on with the text that
  follows. What the loop does from a position on is not modelled: it is the parameter
  \<open>rest_of_feed\<close>, which gives the outcome for the text from that position.
\<close>

definition html_feed ::
  "(string \<Rightarrow> error + event list) \<Rightarrow> string \<Rightarrow> error + event list" where
  "html_feed rest_of_feed html =
     (if startswith html ''<!['' then
        (case parse_marked_section (drop 3 html) of
           Inl e \<Rightarrow> Inl e
         | Inr None \<Rightarrow> Inr []
         | Inr (Some rest) \<Rightarrow> rest_of_feed rest)
      else rest_of_feed html)"

text \<open>
  \<^verbatim>\<open>parse_rows\<close> on the text, for a tokenizer \<open>html_parser\<close>: there is no \<^verbatim>\<open>try\<close>
  around \<^verbatim>\<open>parser.feed(html)\<close>, so an exception of the tokenizer is the outcome of
  \<^verbatim>\<open>parse_rows\<close>; otherwise the handler calls made are classified.
\<close>

definition parse_rows_text ::
  "(string \<Rightarrow> error + event list) \<Rightarrow> date \<Rightarrow> string \<Rightarrow> error + Row list" where
  "parse_rows_text html_parser d html =
     (case html_parser html of Inl e \<Rightarrow> Inl e | Inr calls \<Rightarrow> parse_rows d calls)"

section \<open>Notions used in the statements\<close>

subsection \<open>Normalised text\<close>

text \<open>
  \<open>no_adjacent_ws\<close>: no two neighbouring characters are both whitespace.
  \<open>words_ws\<close>: the maximal runs of non-whitespace characters, from left to right
  (\<open>cur\<close> is the run being read).
\<close>

fun no_adjacent_ws :: "string \<Rightarrow> bool" where
  "no_adjacent_ws (a # b # r) = (\<not> (isspace a \<and> isspace b) \<and> no_adjacent_ws (b # r))"
| "no_adjacent_ws s = True"

fun split_acc :: "string \<Rightarrow> string \<Rightarrow> string list" where
  "split_acc cur [] = (if cur = [] then [] else [cur])"
| "split_acc cur (c # cs) =
     (if isspace c then (if cur = [] then split_acc [] cs else cur # split_acc [] cs)
      else split_acc (cur @ [c]) cs)"

definition words_ws :: "string \<Rightarrow> string list" where
  "words_ws s = split_acc [] s"

subsection \<open>Well-formed table markup\<close>

text \<open>
  The handler calls made for a table written out in full: every cell is a \<^verbatim>\<open>td\<close>
  element holding one piece of text, every row a \<^verbatim>\<open>tr\<close> element, and all elements
  are closed. \<open>no_table_start\<close> describes the markup around a table: anything but the
  start of another table. \<open>kept_rows\<close> is the grid the extractor is to produce: the
  cells normalised and the rows without a non-blank cell dropped.
\<close>

definition cell_events :: "string \<Rightarrow> event list" where
  "cell_events c = [StartTag ''td'', Data c, EndTag ''td'']"

definition row_events :: "string list \<Rightarrow> event list" where
  "row_events r = StartTag ''tr'' # concat (map cell_events r) @ [EndTag ''tr'']"

definition table_events :: "string list list \<Rightarrow> event list" where
  "table_events rs = StartTag ''table'' # concat (map row_events rs) @ [EndTag ''table'']"

fun is_table_start :: "event \<Rightarrow> bool" where
  "is_table_start (StartTag t) = (lower t = ''table'')"
| "is_table_start e = False"

definition no_table_start :: "event list \<Rightarrow> bool" where
  "no_table_start evs = list_all (\<lambda>e. \<not> is_table_start e) evs"

definition kept_rows :: "string list list \<Rightarrow> string list list" where
  "kept_rows rs = filter any_nonblank (map (map norm_space) rs)"

subsection \<open>Header rows and data rows\<close>

text \<open>
  \<open>qualifies_as_header\<close>: some cell is \<^verbatim>\<open>unit\<close> and some cell is or begins with
  \<^verbatim>\<open>power\<close>, after normalising and lower-casing. \<open>record_of_row\<close>: the record a data
  row gives for resolved unit and power columns \<open>ui\<close>, \<open>pi\<close> and an optional reason
  column \<open>ri\<close>, or \<open>None\<close> when the row is skipped.
\<close>

definition qualifies_as_header :: "string list \<Rightarrow> bool" where
  "qualifies_as_header row =
     ((\<exists>c \<in> set row. lower (norm_space c) = ''unit'')
      \<and> (\<exists>c \<in> set row. lower (norm_space c) = ''power''
                          \<or> startswith (lower (norm_space c)) ''power''))"

definition record_of_row :: "date \<Rightarrow> nat \<Rightarrow> nat \<Rightarrow> nat option \<Rightarrow> string list \<Rightarrow> Row option" where
  "record_of_row d ui pi ri row =
     (if \<not> (ui < length row \<and> pi < length row) then None
      else if norm_space (row ! ui) = [] then None
      else if lower (norm_space (row ! ui)) = ''unit'' then None
      else Some \<lparr>report_date = d,
                 row_unit = norm_space (row ! ui),
                 row_power = norm_space (row ! pi),
                 row_reason = (case ri of
                                 None \<Rightarrow> []
                               | Some r \<Rightarrow> if r < length row then norm_space (row ! r) else [])\<rparr>)"

subsection \<open>Open elements\<close>

text \<open>
  \<open>has_open_element s tag\<close>: in state \<open>s\<close> an element is open that an end tag \<open>tag\<close>
  would close: a cell for \<^verbatim>\<open>td\<close> and \<^verbatim>\<open>th\<close>, a row for \<^verbatim>\<open>tr\<close>, a table for
  \<^verbatim>\<open>table\<close>; no other end tag closes anything.
\<close>

definition has_open_element :: "extractor \<Rightarrow> string \<Rightarrow> bool" where
  "has_open_element s tag =
     (let t = lower tag
      in if t = ''td'' \<or> t = ''th'' then in_cell s
         else if t = ''tr'' then in_tr s
         else if t = ''table'' then in_table s \<ge> 1
         else False)"

subsection \<open>Sample inputs\<close>

definition date0 :: date where
  "date0 = \<lparr>year = 1999, month = 3, day = 15\<rparr>"

definition sample_calls :: "event list" where
  "sample_calls = [EndTag ''td'', StartTag ''table'', StartTag ''tr'']"

definition sample_rest_of_feed :: "string \<Rightarrow> error + event list" where
  "sample_rest_of_feed rest = Inr sample_calls"

definition table5 :: "string list list" where
  "table5 = [[''Unit'', ''Power'', ''Reason or Comment''], [''1'', ''100'', ''ok''], [''2''],
             [''  '', ''7'', ''x''], [''Unit'', ''Power'', ''r''], [''3'', ''50'']]"

definition open_cell_state :: extractor where
  "open_cell_state =
     \<lparr>in_table = 1, in_tr = True, in_cell = True, cell_buf = [''Palo''], current_row = [''x''],
      current_table = [], tables = []\<rparr>"

definition unclosed_cell_doc :: "event list" where
  "unclosed_cell_doc =
     [StartTag ''table'', StartTag ''tr'', StartTag ''td'', Data ''a'', EndTag ''tr'']"

subsection \<open>Serialised lines\<close>

text \<open>
  \<open>split_bar\<close> cuts a line at every \<^verbatim>\<open>|\<close>, as a reader of the output file does
  (\<open>cur\<close> is the field being read). \<open>psv_line_as_claimed\<close> is the line in which each
  \<^verbatim>\<open>|\<close> of a field is replaced by a space and nothing else is done to the field.
\<close>

fun split_bar_acc :: "string \<Rightarrow> string \<Rightarrow> string list" where
  "split_bar_acc cur [] = [cur]"
| "split_bar_acc cur (c # cs) =
     (if c = CHR ''|'' then cur # split_bar_acc [] cs else split_bar_acc (cur @ [c]) cs)"

definition split_bar :: "string \<Rightarrow> string list" where
  "split_bar s = split_bar_acc [] s"

definition psv_line_as_claimed :: "Row \<Rightarrow> string" where
  "psv_line_as_claimed r =
     str_nat (month (report_date r)) @ ''/'' @ str_nat (day (report_date r)) @ ''/''
     @ str_nat (year (report_date r))
     @ ''|'' @ replace_bar (row_unit r) @ ''|'' @ replace_bar (row_power r)
     @ ''|'' @ replace_bar (row_reason r)"

subsection \<open>Sample tables\<close>

definition bar_row :: Row where
  "bar_row = \<lparr>report_date = date0, row_unit = ''|1'', row_power = ''97'', row_reason = ''''\<rparr>"

definition scenario_rows :: "string list list" where
  "scenario_rows = [[''Unit'', ''Power'', ''Reason/Comment''], [''Unit 1'', ''97'', ''N/A''],
                    [''Unit 2'', ''0'', ''Refueling Outage'']]"

definition claimed_rows :: "string list list" where
  "claimed_rows = [[''Unit'', ''Power(%)'', ''Reason''], [''1'', ''100'', ''None'']]"

definition resolved_rows :: "string list list" where
  "resolved_rows = [[''Unit'', ''Power (%)'', ''Reason/Comment''], [''1'', ''100'', ''None'']]"

subsection \<open>Nested table markup\<close>

text \<open>
  A table nested in a cell of a row of an outer table, all elements closed: the outer
  table has the rows \<open>outer_before\<close>, then the row holding the nested table, then the
  rows \<open>outer_after\<close>; that row has the cells \<open>cells_before\<close>, then the cell made of
  \<open>text_before\<close>, the table with rows \<open>inner\<close> and \<open>text_after\<close>, then the cells
  \<open>cells_after\<close>. \<open>cell_level\<close> holds of the handler calls that neither open or close
  a table nor open a row.
\<close>

definition nested_prefix :: "string list list \<Rightarrow> string list \<Rightarrow> string \<Rightarrow> event list" where
  "nested_prefix outer_before cells_before text_before =
     StartTag ''table'' # concat (map row_events outer_before)
     @ StartTag ''tr'' # concat (map cell_events cells_before)
     @ [StartTag ''td'', Data text_before]"

definition nested_suffix :: "string \<Rightarrow> string list \<Rightarrow> string list list \<Rightarrow> event list" where
  "nested_suffix text_after cells_after outer_after =
     [Data text_after, EndTag ''td''] @ concat (map cell_events cells_after) @ [EndTag ''tr'']
     @ concat (map row_events outer_after) @ [EndTag ''table'']"

definition nested_table_events ::
  "string list list \<Rightarrow> string list \<Rightarrow> string \<Rightarrow> string list list \<Rightarrow> string \<Rightarrow> string list
   \<Rightarrow> string list list \<Rightarrow> event list" where
  "nested_table_events outer_before cells_before text_before inner text_after cells_after
     outer_after =
     nested_prefix outer_before cells_before text_before @ table_events inner
     @ nested_suffix text_after cells_after outer_after"

fun cell_level :: "event \<Rightarrow> bool" where
  "cell_level (StartTag t) = (lower t \<noteq> ''table'' \<and> lower t \<noteq> ''tr'')"
| "cell_level (EndTag t) = (lower t \<noteq> ''table'')"
| "cell_level (Data x) = True"

definition nested_example :: "event list" where
  "nested_example =
     nested_table_events [[''Unit'', ''Power'', ''Reason or Comment'']] [''1'', ''100''] []
       [[''Unit'', ''Power''], [''2'', ''50'']] [] [] []"

section \<open>Whitespace normalisation\<close>

lemma isspace_space: "isspace (CHR '' '')"
  by (simp add: isspace_def whitespace_chars_def)

lemma re_sub_ws_only_space: "c \<in> set (re_sub_ws s) \<Longrightarrow> isspace c \<Longrightarrow> c = CHR '' ''"
  by (induction s rule: re_sub_ws.induct) (auto split: if_splits)

lemma no_adjacent_ws_Cons:
  "no_adjacent_ws (a # r) = (no_adjacent_ws r \<and> (r \<noteq> [] \<longrightarrow> \<not> (isspace a \<and> isspace (hd r))))"
  by (cases r) auto

lemma re_sub_ws_hd: "s \<noteq> [] \<Longrightarrow> \<not> isspace (hd s) \<Longrightarrow> re_sub_ws s \<noteq> [] \<and> hd (re_sub_ws s) = hd s"
  by (cases s) auto

lemma re_sub_ws_Nil: "re_sub_ws s = [] \<longleftrightarrow> s = []"
  by (cases s) auto

lemma re_sub_ws_no_adjacent: "no_adjacent_ws (re_sub_ws s)"
proof (induction s rule: re_sub_ws.induct)
  case 1
  show ?case by simp
next
  case (2 c cs)
  show ?case
  proof (cases "isspace c")
    case True
    let ?d = "dropWhile isspace cs"
    have "re_sub_ws ?d \<noteq> [] \<Longrightarrow> \<not> isspace (hd (re_sub_ws ?d))"
    proof -
      assume "re_sub_ws ?d \<noteq> []"
      then have ne: "?d \<noteq> []" by (simp add: re_sub_ws_Nil)
      then have "\<not> isspace (hd ?d)" by (simp add: hd_dropWhile)
      with ne show ?thesis using re_sub_ws_hd [of ?d] by simp
    qed
    with True 2 show ?thesis by (auto simp: no_adjacent_ws_Cons)
  next
    case False
    with 2 show ?thesis by (auto simp: no_adjacent_ws_Cons)
  qed
qed

lemma no_adjacent_ws_append: "no_adjacent_ws (xs @ ys) \<Longrightarrow> no_adjacent_ws xs \<and> no_adjacent_ws ys"
  by (induction xs rule: no_adjacent_ws.induct) (auto simp: no_adjacent_ws_Cons)

lemma lstrip_suffix: "\<exists>p. s = p @ lstrip s"
  unfolding lstrip_def by (metis takeWhile_dropWhile_id)

lemma rstrip_prefix: "\<exists>q. s = rstrip s @ q"
proof -
  have "rev s = takeWhile isspace (rev s) @ dropWhile isspace (rev s)" by simp
  then have "rev (rev s) = rev (takeWhile isspace (rev s) @ dropWhile isspace (rev s))" by simp
  then have "s = rstrip s @ rev (takeWhile isspace (rev s))"
    unfolding rstrip_def by (simp only: rev_rev_ident rev_append)
  then show ?thesis by blast
qed

lemma strip_no_adjacent: "no_adjacent_ws s \<Longrightarrow> no_adjacent_ws (strip s)"
proof -
  assume a: "no_adjacent_ws s"
  obtain p where "s = p @ lstrip s" using lstrip_suffix by blast
  with a have b: "no_adjacent_ws (lstrip s)" using no_adjacent_ws_append by metis
  obtain q where "lstrip s = rstrip (lstrip s) @ q" using rstrip_prefix by blast
  with b show ?thesis unfolding strip_def using no_adjacent_ws_append by metis
qed

lemma strip_subset: "set (strip s) \<subseteq> set s"
proof -
  have "set (rstrip t) \<subseteq> set t" for t
    unfolding rstrip_def using set_dropWhileD by fastforce
  moreover have "set (lstrip s) \<subseteq> set s"
    unfolding lstrip_def using set_dropWhileD by fastforce
  ultimately show ?thesis unfolding strip_def by blast
qed

lemma rstrip_last: "rstrip s \<noteq> [] \<Longrightarrow> \<not> isspace (last (rstrip s))"
  unfolding rstrip_def by (simp add: last_rev hd_dropWhile)

lemma rstrip_hd: "rstrip s \<noteq> [] \<Longrightarrow> hd (rstrip s) = hd s"
proof -
  assume ne: "rstrip s \<noteq> []"
  obtain q where "s = rstrip s @ q" using rstrip_prefix by blast
  then have "hd s = hd (rstrip s @ q)" by simp
  with ne show ?thesis by simp
qed

lemma rstrip_Nil_D: "rstrip s \<noteq> [] \<Longrightarrow> s \<noteq> []"
  unfolding rstrip_def by auto

lemma strip_trimmed:
  "strip s \<noteq> [] \<Longrightarrow> \<not> isspace (hd (strip s)) \<and> \<not> isspace (last (strip s))"
proof -
  assume ne: "strip s \<noteq> []"
  then have l: "lstrip s \<noteq> []" unfolding strip_def using rstrip_Nil_D by blast
  then have "\<not> isspace (hd (lstrip s))" unfolding lstrip_def by (simp add: hd_dropWhile)
  moreover have "hd (strip s) = hd (lstrip s)" using ne unfolding strip_def by (rule rstrip_hd)
  moreover have "\<not> isspace (last (strip s))" using ne unfolding strip_def by (rule rstrip_last)
  ultimately show ?thesis by simp
qed

lemma split_acc_dropWhile: "split_acc [] (dropWhile isspace s) = split_acc [] s"
  by (induction s) auto

lemma split_acc_re_sub_ws: "split_acc cur (re_sub_ws s) = split_acc cur s"
  by (induction s arbitrary: cur rule: re_sub_ws.induct)
     (auto simp: isspace_space split_acc_dropWhile)

lemma split_acc_snoc_ws: "isspace c \<Longrightarrow> split_acc cur (s @ [c]) = split_acc cur s"
  by (induction s arbitrary: cur) auto

lemma rstrip_snoc: "rstrip (s @ [c]) = (if isspace c then rstrip s else s @ [c])"
  unfolding rstrip_def by simp

lemma split_acc_rstrip: "split_acc cur (rstrip s) = split_acc cur s"
  by (induction s rule: rev_induct) (auto simp: rstrip_snoc split_acc_snoc_ws rstrip_def)

lemma words_ws_norm_space: "words_ws (norm_space s) = words_ws s"
  unfolding words_ws_def norm_space_def strip_def lstrip_def
  by (simp add: split_acc_rstrip split_acc_dropWhile split_acc_re_sub_ws)

lemma norm_space_only_space: "c \<in> set (norm_space s) \<Longrightarrow> isspace c \<Longrightarrow> c = CHR '' ''"
  unfolding norm_space_def using strip_subset re_sub_ws_only_space by blast

lemma norm_space_no_adjacent: "no_adjacent_ws (norm_space s)"
  unfolding norm_space_def by (rule strip_no_adjacent) (rule re_sub_ws_no_adjacent)

lemma norm_space_trimmed:
  "norm_space s \<noteq> [] \<Longrightarrow> \<not> isspace (hd (norm_space s)) \<and> \<not> isspace (last (norm_space s))"
  unfolding norm_space_def by (rule strip_trimmed)

section \<open>Extraction of well-formed tables\<close>

lemma lower_table: "lower ''table'' = ''table''" by code_simp
lemma lower_tr: "lower ''tr'' = ''tr''" by code_simp
lemma lower_td: "lower ''td'' = ''td''" by code_simp
lemma lower_th: "lower ''th'' = ''th''" by code_simp
lemma lower_br: "lower ''br'' = ''br''" by code_simp
lemma lower_p: "lower ''p'' = ''p''" by code_simp

lemmas lower_tags = lower_table lower_tr lower_td lower_th lower_br lower_p

lemma feed_append: "feed s (xs @ ys) = feed (feed s xs) ys"
  by (induction xs arbitrary: s) auto

lemma dispatch_idle: "in_table s = 0 \<Longrightarrow> \<not> is_table_start e \<Longrightarrow> dispatch s e = s"
  by (cases e) (auto simp: handle_starttag_def handle_endtag_def handle_data_def Let_def)

lemma feed_idle: "in_table s = 0 \<Longrightarrow> no_table_start evs \<Longrightarrow> feed s evs = s"
  by (induction evs arbitrary: s) (auto simp: no_table_start_def dispatch_idle)

lemma feed_cell:
  assumes "in_table s \<ge> 1" and "in_tr s"
  shows "feed s (cell_events c) =
         s\<lparr>in_cell := False, cell_buf := [], current_row := current_row s @ [norm_space c]\<rparr>"
  using assms
  by (simp add: cell_events_def handle_starttag_def handle_endtag_def handle_data_def Let_def
        lower_tags)

lemma feed_cells:
  assumes "in_table s \<ge> 1" and "in_tr s"
  shows "in_table (feed s (concat (map cell_events cs))) = in_table s
       \<and> in_tr (feed s (concat (map cell_events cs)))
       \<and> current_row (feed s (concat (map cell_events cs))) = current_row s @ map norm_space cs
       \<and> current_table (feed s (concat (map cell_events cs))) = current_table s
       \<and> tables (feed s (concat (map cell_events cs))) = tables s"
  using assms
proof (induction cs arbitrary: s)
  case Nil
  then show ?case by simp
next
  case (Cons c cs)
  let ?s1 = "feed s (cell_events c)"
  have s1: "?s1 = s\<lparr>in_cell := False, cell_buf := [], current_row := current_row s @ [norm_space c]\<rparr>"
    using Cons.prems by (rule feed_cell)
  have "in_table ?s1 \<ge> 1" and "in_tr ?s1" using Cons.prems by (simp_all add: s1)
  from Cons.IH [OF this] show ?case by (simp add: feed_append s1)
qed

lemma endtag_tr:
  assumes "in_table s \<ge> 1" and "in_tr s"
  shows "in_table (handle_endtag s ''tr'') = in_table s
       \<and> \<not> in_tr (handle_endtag s ''tr'')
       \<and> current_row (handle_endtag s ''tr'') = []
       \<and> current_table (handle_endtag s ''tr'') =
           current_table s @ (if any_nonblank (current_row s) then [current_row s] else [])
       \<and> tables (handle_endtag s ''tr'') = tables s"
  using assms by (simp add: handle_endtag_def Let_def lower_tags)

lemma feed_row:
  assumes "in_table s \<ge> 1"
  shows "in_table (feed s (row_events r)) = in_table s
       \<and> \<not> in_tr (feed s (row_events r))
       \<and> current_row (feed s (row_events r)) = []
       \<and> current_table (feed s (row_events r)) = current_table s @ kept_rows [r]
       \<and> tables (feed s (row_events r)) = tables s"
proof -
  let ?s1 = "handle_starttag s ''tr''"
  have s1: "?s1 = s\<lparr>in_tr := True, current_row := []\<rparr>"
    using assms by (simp add: handle_starttag_def Let_def lower_tags)
  let ?s2 = "feed ?s1 (concat (map cell_events r))"
  have "in_table ?s1 \<ge> 1" and "in_tr ?s1" using assms by (simp_all add: s1)
  from feed_cells [OF this, of r]
  have s2: "in_table ?s2 = in_table s" "in_tr ?s2" "current_row ?s2 = map norm_space r"
    "current_table ?s2 = current_table s" "tables ?s2 = tables s"
    by (simp_all add: s1)
  have "in_table ?s2 \<ge> 1" using assms s2 by simp
  from endtag_tr [OF this s2(2)] s2
  have "in_table (handle_endtag ?s2 ''tr'') = in_table s
       \<and> \<not> in_tr (handle_endtag ?s2 ''tr'')
       \<and> current_row (handle_endtag ?s2 ''tr'') = []
       \<and> current_table (handle_endtag ?s2 ''tr'') = current_table s @ kept_rows [r]
       \<and> tables (handle_endtag ?s2 ''tr'') = tables s"
    by (simp add: kept_rows_def)
  moreover have "feed s (row_events r) = handle_endtag ?s2 ''tr''"
    by (simp add: row_events_def feed_append)
  ultimately show ?thesis by simp
qed

lemma kept_rows_Cons: "kept_rows (r # rs) = kept_rows [r] @ kept_rows rs"
  by (simp add: kept_rows_def)

lemma feed_rows:
  assumes "in_table s \<ge> 1"
  shows "in_table (feed s (concat (map row_events rs))) = in_table s
       \<and> in_tr (feed s (concat (map row_events rs))) = (if rs = [] then in_tr s else False)
       \<and> current_row (feed s (concat (map row_events rs))) = (if rs = [] then current_row s else [])
       \<and> current_table (feed s (concat (map row_events rs))) = current_table s @ kept_rows rs
       \<and> tables (feed s (concat (map row_events rs))) = tables s"
  using assms
proof (induction rs arbitrary: s)
  case Nil
  then show ?case by (simp add: kept_rows_def)
next
  case (Cons r rs)
  let ?s1 = "feed s (row_events r)"
  note r = feed_row [OF Cons.prems, of r]
  then have "in_table ?s1 \<ge> 1" using Cons.prems by simp
  from Cons.IH [OF this] r show ?case
    by (simp add: feed_append kept_rows_Cons [of r rs])
qed

lemma feed_table:
  assumes "in_table s = 0"
  shows "in_table (feed s (table_events rs)) = 0
       \<and> tables (feed s (table_events rs)) =
           tables s @ (if kept_rows rs = [] then [] else [kept_rows rs])"
proof -
  let ?s1 = "handle_starttag s ''table''"
  have s1: "in_table ?s1 = 1" "current_table ?s1 = []" "tables ?s1 = tables s"
    using assms by (simp_all add: handle_starttag_def Let_def lower_tags)
  let ?s2 = "feed ?s1 (concat (map row_events rs))"
  have "in_table ?s1 \<ge> 1" using s1 by simp
  from feed_rows [OF this, of rs] s1
  have s2: "in_table ?s2 = 1" "current_table ?s2 = kept_rows rs" "tables ?s2 = tables s"
    by simp_all
  have "in_table (handle_endtag ?s2 ''table'') = 0
       \<and> tables (handle_endtag ?s2 ''table'') =
           tables s @ (if kept_rows rs = [] then [] else [kept_rows rs])"
    using s2 by (simp add: handle_endtag_def Let_def lower_tags)
  moreover have "feed s (table_events rs) = handle_endtag ?s2 ''table''"
    by (simp add: table_events_def feed_append)
  ultimately show ?thesis by simp
qed

lemma tables_single_table:
  assumes "no_table_start pre" and "no_table_start post"
  shows "tables (feed TableExtractor_init (pre @ table_events rs @ post)) =
         (if kept_rows rs = [] then [] else [kept_rows rs])"
proof -
  have i: "in_table TableExtractor_init = 0" by (simp add: TableExtractor_init_def)
  have a: "feed TableExtractor_init pre = TableExtractor_init"
    using i assms(1) by (rule feed_idle)
  let ?s = "feed TableExtractor_init (table_events rs)"
  note t = feed_table [OF i, of rs]
  then have "feed ?s post = ?s" using assms(2) feed_idle by blast
  with a t show ?thesis by (simp add: feed_append TableExtractor_init_def)
qed

section \<open>Classification\<close>

lemma list_ex_map: "list_ex P (map f xs) = (\<exists>x \<in> set xs. P (f x))"
  by (induction xs) auto

lemma header_test_qualifies: "header_test (lowered_row row) = qualifies_as_header row"
  unfolding header_test_def lowered_row_def qualifies_as_header_def list_ex_map
  by (simp add: disj_commute)

lemma find_header_from_None:
  "fst (find_header_from k t) = None \<longleftrightarrow> (\<forall>row \<in> set t. \<not> qualifies_as_header row)"
  by (induction t arbitrary: k) (auto simp: Let_def header_test_qualifies)

lemma find_header_from_None_headers:
  "fst (find_header_from k t) = None \<Longrightarrow> snd (find_header_from k t) = []"
  by (induction t arbitrary: k) (auto simp: Let_def split: if_splits)

lemma find_header_from_Some:
  "find_header_from k t = (Some n, hs) \<Longrightarrow>
     k \<le> n \<and> n - k < length t \<and> qualifies_as_header (t ! (n - k))
     \<and> (\<forall>j < n - k. \<not> qualifies_as_header (t ! j)) \<and> hs = lowered_row (t ! (n - k))"
proof (induction t arbitrary: k)
  case Nil
  then show ?case by simp
next
  case (Cons row rest)
  show ?case
  proof (cases "header_test (lowered_row row)")
    case True
    with Cons.prems show ?thesis by (auto simp: Let_def header_test_qualifies)
  next
    case False
    with Cons.prems have r: "find_header_from (Suc k) rest = (Some n, hs)" by (simp add: Let_def)
    from Cons.IH [OF r] have ih: "Suc k \<le> n" "n - Suc k < length rest"
      "qualifies_as_header (rest ! (n - Suc k))"
      "\<forall>j < n - Suc k. \<not> qualifies_as_header (rest ! j)" "hs = lowered_row (rest ! (n - Suc k))"
      by simp_all
    from ih(1) have nk: "n - k = Suc (n - Suc k)" by simp
    have "\<forall>j < n - k. \<not> qualifies_as_header ((row # rest) ! j)"
    proof (intro allI impI)
      fix j assume "j < n - k"
      then show "\<not> qualifies_as_header ((row # rest) ! j)"
        using False ih(4) nk by (cases j) (auto simp: header_test_qualifies)
    qed
    with ih nk show ?thesis by simp
  qed
qed

lemma find_col_from_None: "find_col_from k hs p = None \<longleftrightarrow> (\<forall>h \<in> set hs. \<not> p h)"
  by (induction hs arbitrary: k) auto

lemma find_col_from_Some:
  "find_col_from k hs p = Some n \<Longrightarrow>
     k \<le> n \<and> n - k < length hs \<and> p (hs ! (n - k)) \<and> (\<forall>j < n - k. \<not> p (hs ! j))"
proof (induction hs arbitrary: k)
  case Nil
  then show ?case by simp
next
  case (Cons h hs)
  show ?case
  proof (cases "p h")
    case True
    with Cons.prems show ?thesis by auto
  next
    case False
    with Cons.prems have r: "find_col_from (Suc k) hs p = Some n" by simp
    from Cons.IH [OF r] have ih: "Suc k \<le> n" "n - Suc k < length hs" "p (hs ! (n - Suc k))"
      "\<forall>j < n - Suc k. \<not> p (hs ! j)" by simp_all
    from ih(1) have nk: "n - k = Suc (n - Suc k)" by simp
    have "\<forall>j < n - k. \<not> p ((h # hs) ! j)"
    proof (intro allI impI)
      fix j assume "j < n - k"
      then show "\<not> p ((h # hs) ! j)" using False ih(4) nk by (cases j) auto
    qed
    with ih nk show ?thesis by simp
  qed
qed

lemma read_reason_total:
  "read_reason ri row =
     Inr (case ri of None \<Rightarrow> [] | Some r \<Rightarrow> if r < length row then norm_space (row ! r) else [])"
  by (simp add: read_reason_def getitem_def bind_result_def split: option.splits)

lemma row_step_record:
  "row_step d ui pi ri out row =
     Inr (out @ (case record_of_row d ui pi ri row of None \<Rightarrow> [] | Some r \<Rightarrow> [r]))"
  by (simp add: row_step_def record_of_row_def read_reason_total getitem_def bind_result_def
        Let_def not_le)

lemma rows_loop_records:
  "rows_loop d ui pi ri out rows =
     Inr (out @ List.map_filter (record_of_row d ui pi ri) rows)"
proof (induction rows arbitrary: out)
  case Nil
  show ?case by (simp add: List.map_filter_def)
next
  case (Cons row rows)
  show ?case by (simp add: row_step_record Cons.IH split: option.splits)
qed

lemma table_step_total: "\<exists>out'. table_step d out t = Inr out'"
  by (simp add: table_step_def Let_def rows_loop_records split: prod.splits)

lemma tables_loop_total: "\<exists>out'. tables_loop d out ts = Inr out'"
proof (induction ts arbitrary: out)
  case Nil
  show ?case by simp
next
  case (Cons t ts)
  obtain out1 where "table_step d out t = Inr out1" using table_step_total by blast
  with Cons.IH [of out1] show ?case by simp
qed

lemma parse_rows_eq:
  "parse_rows d evs = tables_loop d [] (tables (feed TableExtractor_init evs))"
  by (simp add: parse_rows_def)

lemma table_step_no_header:
  "\<forall>row \<in> set t. \<not> qualifies_as_header row \<Longrightarrow> table_step d out t = Inr out"
proof -
  assume "\<forall>row \<in> set t. \<not> qualifies_as_header row"
  then have "fst (find_header_from 0 t) = None" by (simp add: find_header_from_None)
  then obtain hs where "find_header_from 0 t = (None, hs)" by (cases "find_header_from 0 t") simp
  then show ?thesis by (simp add: table_step_def)
qed

lemma table_step_header:
  assumes "find_header_from 0 t = (Some i, hs)"
    and "find_col_idx hs unit_pred = Some ui" and "find_col_idx hs power_pred = Some pi"
  shows "table_step d out t =
     Inr (out @ List.map_filter (record_of_row d ui pi (find_col_idx hs reason_pred)) (drop (Suc i) t))"
proof -
  have "hs \<noteq> []" using assms(2) by (auto simp: find_col_idx_def)
  with assms show ?thesis by (simp add: table_step_def Let_def rows_loop_records)
qed

lemma table_step_missing_col:
  assumes "find_header_from 0 t = (Some i, hs)"
    and "find_col_idx hs unit_pred = None \<or> find_col_idx hs power_pred = None"
  shows "table_step d out t = Inr out"
  using assms by (auto simp: table_step_def Let_def)

section \<open>Evaluated cell texts\<close>

lemma norm_space_palo: "norm_space (concat [''Palo'', '' '', ''Verde   '']) = ''Palo Verde''"
  by code_simp

section \<open>Lines and their fields\<close>

lemma split_bar_acc_field:
  "CHR ''|'' \<notin> set xs \<Longrightarrow> split_bar_acc cur (xs @ CHR ''|'' # rest) = (cur @ xs) # split_bar_acc [] rest"
  by (induction xs arbitrary: cur) auto

lemma split_bar_acc_last: "CHR ''|'' \<notin> set xs \<Longrightarrow> split_bar_acc cur xs = [cur @ xs]"
  by (induction xs arbitrary: cur) auto

lemma digit_char_no_bar: "k < 10 \<Longrightarrow> digit_char k \<noteq> CHR ''|''"
proof -
  assume "k < 10"
  then have "digit_char k \<in> set ''0123456789''"
    unfolding digit_char_def by (intro nth_mem) simp
  then show ?thesis by auto
qed

lemma str_nat_no_bar: "CHR ''|'' \<notin> set (str_nat n)"
proof (induction n rule: str_nat.induct)
  case (1 n)
  show ?case
  proof (cases "n < 10")
    case True
    then show ?thesis using digit_char_no_bar [of n] by (subst str_nat.simps) simp
  next
    case False
    with 1 digit_char_no_bar [of "n mod 10"] show ?thesis
      by (subst str_nat.simps) simp
  qed
qed

lemma safe_psv_field_no_bar: "CHR ''|'' \<notin> set (safe_psv_field s)"
proof -
  have "CHR ''|'' \<notin> set (replace_bar s)" by (auto simp: replace_bar_def)
  then show ?thesis unfolding safe_psv_field_def using strip_subset by blast
qed

lemma date_no_bar:
  "CHR ''|'' \<notin> set (str_nat m @ ''/'' @ str_nat d @ ''/'' @ str_nat y)"
  by (simp add: str_nat_no_bar)

lemma split_bar_to_psv:
  "split_bar (to_psv r) =
     [str_nat (month (report_date r)) @ ''/'' @ str_nat (day (report_date r)) @ ''/''
        @ str_nat (year (report_date r)),
      safe_psv_field (row_unit r), safe_psv_field (row_power r), safe_psv_field (row_reason r)]"
proof -
  let ?d = "str_nat (month (report_date r)) @ ''/'' @ str_nat (day (report_date r)) @ ''/''
        @ str_nat (year (report_date r))"
  let ?u = "safe_psv_field (row_unit r)" and ?p = "safe_psv_field (row_power r)"
    and ?q = "safe_psv_field (row_reason r)"
  have "to_psv r = ?d @ CHR ''|'' # (?u @ CHR ''|'' # (?p @ CHR ''|'' # ?q))"
    by (simp add: to_psv_def Let_def)
  then have "split_bar (to_psv r) = split_bar_acc [] (?d @ CHR ''|'' # (?u @ CHR ''|'' # (?p @ CHR ''|'' # ?q)))"
    by (simp only: split_bar_def)
  also have "\<dots> = ?d # split_bar_acc [] (?u @ CHR ''|'' # (?p @ CHR ''|'' # ?q))"
    using split_bar_acc_field [OF date_no_bar, of "[]"] by simp
  also have "\<dots> = ?d # ?u # split_bar_acc [] (?p @ CHR ''|'' # ?q)"
    using split_bar_acc_field [OF safe_psv_field_no_bar, of "[]"] by simp
  also have "\<dots> = ?d # ?u # ?p # split_bar_acc [] ?q"
    using split_bar_acc_field [OF safe_psv_field_no_bar, of "[]"] by simp
  also have "\<dots> = [?d, ?u, ?p, ?q]"
    using split_bar_acc_last [OF safe_psv_field_no_bar, of "[]"] by simp
  finally show ?thesis .
qed

section \<open>Documents with one table\<close>

lemma parse_rows_single_table:
  assumes "no_table_start pre" and "no_table_start post" and "kept_rows rs \<noteq> []"
  shows "parse_rows d (pre @ table_events rs @ post) = table_step d [] (kept_rows rs)"
proof -
  obtain out where o: "table_step d [] (kept_rows rs) = Inr out"
    using table_step_total by blast
  from assms show ?thesis
    by (simp add: parse_rows_eq tables_single_table o)
qed

lemma kept_scenario_rows: "kept_rows scenario_rows = scenario_rows"
  by code_simp

lemma header_scenario_rows:
  "find_header_from 0 scenario_rows = (Some 0, [''unit'', ''power'', ''reason/comment''])"
  by code_simp

lemma cols_scenario_rows:
  "find_col_idx [''unit'', ''power'', ''reason/comment''] unit_pred = Some 0"
  "find_col_idx [''unit'', ''power'', ''reason/comment''] power_pred = Some 1"
  "find_col_idx [''unit'', ''power'', ''reason/comment''] reason_pred = Some 2"
  by code_simp+

lemma norm_scenario_cells:
  "norm_space ''Unit 1'' = ''Unit 1''" "norm_space ''97'' = ''97''" "norm_space ''N/A'' = ''N/A''"
  "norm_space ''Unit 2'' = ''Unit 2''" "norm_space ''0'' = ''0''"
  "norm_space ''Refueling Outage'' = ''Refueling Outage''"
  "lower ''Unit 1'' = ''unit 1''" "lower ''Unit 2'' = ''unit 2''"
  by code_simp+

lemma records_scenario_rows:
  "List.map_filter (record_of_row d 0 1 (Some 2)) (drop (Suc 0) scenario_rows) =
     [\<lparr>report_date = d, row_unit = ''Unit 1'', row_power = ''97'', row_reason = ''N/A''\<rparr>,
      \<lparr>report_date = d, row_unit = ''Unit 2'', row_power = ''0'',
        row_reason = ''Refueling Outage''\<rparr>]"
  by (simp add: scenario_rows_def List.map_filter_def record_of_row_def norm_scenario_cells)

lemma parse_rows_scenario:
  assumes "no_table_start pre" and "no_table_start post"
  shows "parse_rows d (pre @ table_events scenario_rows @ post) =
     Inr [\<lparr>report_date = d, row_unit = ''Unit 1'', row_power = ''97'', row_reason = ''N/A''\<rparr>,
          \<lparr>report_date = d, row_unit = ''Unit 2'', row_power = ''0'',
            row_reason = ''Refueling Outage''\<rparr>]"
proof -
  have ne: "kept_rows scenario_rows \<noteq> []"
    by (simp only: kept_scenario_rows) (simp add: scenario_rows_def)
  have "table_step d [] scenario_rows =
     Inr ([] @ List.map_filter (record_of_row d 0 1
            (find_col_idx [''unit'', ''power'', ''reason/comment''] reason_pred))
            (drop (Suc 0) scenario_rows))"
    using header_scenario_rows cols_scenario_rows(1) cols_scenario_rows(2)
    by (rule table_step_header)
  then have "table_step d [] scenario_rows =
     Inr [\<lparr>report_date = d, row_unit = ''Unit 1'', row_power = ''97'', row_reason = ''N/A''\<rparr>,
          \<lparr>report_date = d, row_unit = ''Unit 2'', row_power = ''0'',
            row_reason = ''Refueling Outage''\<rparr>]"
    by (simp only: cols_scenario_rows(3) records_scenario_rows append_Nil)
  with parse_rows_single_table [OF assms ne, of d] show ?thesis
    by (simp only: kept_scenario_rows)
qed

lemma to_psv_scenario:
  "to_psv \<lparr>report_date = date0, row_unit = ''Unit 1'', row_power = ''97'', row_reason = ''N/A''\<rparr>
     = ''3/15/1999|Unit 1|97|N/A''"
  "to_psv \<lparr>report_date = date0, row_unit = ''Unit 2'', row_power = ''0'',
            row_reason = ''Refueling Outage''\<rparr> = ''3/15/1999|Unit 2|0|Refueling Outage''"
  by code_simp+

lemma kept_claimed_rows: "kept_rows claimed_rows = claimed_rows"
  by code_simp

lemma header_claimed_rows:
  "find_header_from 0 claimed_rows = (Some 0, [''unit'', ''power(%)'', ''reason''])"
  by code_simp

lemma power_col_claimed_rows:
  "find_col_idx [''unit'', ''power(%)'', ''reason''] power_pred = None"
  by code_simp

lemma kept_resolved_rows: "kept_rows resolved_rows = resolved_rows"
  by code_simp

lemma header_resolved_rows:
  "find_header_from 0 resolved_rows = (Some 0, [''unit'', ''power (%)'', ''reason/comment''])"
  by code_simp

lemma cols_resolved_rows:
  "find_col_idx [''unit'', ''power (%)'', ''reason/comment''] unit_pred = Some 0"
  "find_col_idx [''unit'', ''power (%)'', ''reason/comment''] power_pred = Some 1"
  "find_col_idx [''unit'', ''power (%)'', ''reason/comment''] reason_pred = Some 2"
  by code_simp+

lemma norm_resolved_cells:
  "norm_space ''1'' = ''1''" "norm_space ''100'' = ''100''" "norm_space ''None'' = ''None''"
  "lower ''1'' = ''1''"
  by code_simp+

lemma records_resolved_rows:
  "List.map_filter (record_of_row d 0 1 (Some 2)) (drop (Suc 0) resolved_rows) =
     [\<lparr>report_date = d, row_unit = ''1'', row_power = ''100'', row_reason = ''None''\<rparr>]"
  by (simp add: resolved_rows_def List.map_filter_def record_of_row_def norm_resolved_cells)

lemma parse_rows_claimed_rows:
  assumes "no_table_start pre" and "no_table_start post"
  shows "parse_rows d (pre @ table_events claimed_rows @ post) = Inr []"
proof -
  have ne: "kept_rows claimed_rows \<noteq> []"
    by (simp only: kept_claimed_rows) (simp add: claimed_rows_def)
  have "find_col_idx [''unit'', ''power(%)'', ''reason''] unit_pred = None
        \<or> find_col_idx [''unit'', ''power(%)'', ''reason''] power_pred = None"
    using power_col_claimed_rows by (rule disjI2)
  with header_claimed_rows have "table_step d [] claimed_rows = Inr []"
    by (rule table_step_missing_col)
  with parse_rows_single_table [OF assms ne, of d] show ?thesis
    by (simp only: kept_claimed_rows)
qed

lemma parse_rows_resolved_rows:
  assumes "no_table_start pre" and "no_table_start post"
  shows "parse_rows d (pre @ table_events resolved_rows @ post) =
           Inr [\<lparr>report_date = d, row_unit = ''1'', row_power = ''100'', row_reason = ''None''\<rparr>]"
proof -
  have ne: "kept_rows resolved_rows \<noteq> []"
    by (simp only: kept_resolved_rows) (simp add: resolved_rows_def)
  have "table_step d [] resolved_rows =
     Inr ([] @ List.map_filter (record_of_row d 0 1
            (find_col_idx [''unit'', ''power (%)'', ''reason/comment''] reason_pred))
            (drop (Suc 0) resolved_rows))"
    using header_resolved_rows cols_resolved_rows(1) cols_resolved_rows(2)
    by (rule table_step_header)
  then have "table_step d [] resolved_rows =
     Inr [\<lparr>report_date = d, row_unit = ''1'', row_power = ''100'', row_reason = ''None''\<rparr>]"
    by (simp only: cols_resolved_rows(3) records_resolved_rows append_Nil)
  with parse_rows_single_table [OF assms ne, of d] show ?thesis
    by (simp only: kept_resolved_rows)
qed

lemma no_table_start_Nil: "no_table_start []"
  by (simp add: no_table_start_def)

section \<open>Extraction of nested tables\<close>

lemma dispatch_outside_row:
  assumes "\<not> in_tr s" and "cell_level e"
  shows "in_table (dispatch s e) = in_table s \<and> \<not> in_tr (dispatch s e)
       \<and> current_row (dispatch s e) = current_row s
       \<and> current_table (dispatch s e) = current_table s
       \<and> tables (dispatch s e) = tables s"
  using assms
  by (cases e) (auto simp: handle_starttag_def handle_endtag_def handle_data_def Let_def)

lemma feed_outside_row:
  assumes "\<not> in_tr s" and "list_all cell_level evs"
  shows "in_table (feed s evs) = in_table s \<and> \<not> in_tr (feed s evs)
       \<and> current_row (feed s evs) = current_row s
       \<and> current_table (feed s evs) = current_table s
       \<and> tables (feed s evs) = tables s"
  using assms
proof (induction evs arbitrary: s)
  case Nil
  then show ?case by simp
next
  case (Cons e evs)
  from Cons.prems have e: "cell_level e" and r: "list_all cell_level evs" by simp_all
  note d = dispatch_outside_row [OF Cons.prems(1) e]
  then have "\<not> in_tr (dispatch s e)" by simp
  from Cons.IH [OF this r] d show ?case by simp
qed

lemma cell_level_cells: "list_all cell_level (concat (map cell_events cs))"
  by (induction cs) (simp_all add: cell_events_def lower_tags)

lemma starttag_table_nested:
  assumes "in_table s \<ge> 1"
  shows "handle_starttag s ''table'' = s\<lparr>in_table := in_table s + 1\<rparr>"
  using assms by (simp add: handle_starttag_def Let_def lower_tags)

lemma endtag_table_nested:
  assumes "in_table s \<ge> 2"
  shows "in_table (handle_endtag s ''table'') = in_table s - 1
       \<and> in_tr (handle_endtag s ''table'') = in_tr s
       \<and> current_row (handle_endtag s ''table'') = current_row s
       \<and> current_table (handle_endtag s ''table'') = current_table s
       \<and> tables (handle_endtag s ''table'') = tables s"
  using assms by (simp add: handle_endtag_def Let_def lower_tags)

lemma endtag_table_outer:
  assumes "in_table s = 1"
  shows "in_table (handle_endtag s ''table'') = 0
       \<and> tables (handle_endtag s ''table'') =
           tables s @ (if current_table s = [] then [] else [current_table s])"
  using assms by (simp add: handle_endtag_def Let_def lower_tags)

lemma feed_table_nested:
  assumes "in_table s \<ge> 1"
  shows "in_table (feed s (table_events rs)) = in_table s
       \<and> in_tr (feed s (table_events rs)) = (if rs = [] then in_tr s else False)
       \<and> current_row (feed s (table_events rs)) = (if rs = [] then current_row s else [])
       \<and> current_table (feed s (table_events rs)) = current_table s @ kept_rows rs
       \<and> tables (feed s (table_events rs)) = tables s"
proof -
  let ?s1 = "handle_starttag s ''table''"
  have s1: "?s1 = s\<lparr>in_table := in_table s + 1\<rparr>" using assms by (rule starttag_table_nested)
  let ?s2 = "feed ?s1 (concat (map row_events rs))"
  have "in_table ?s1 \<ge> 1" by (simp add: s1)
  from feed_rows [OF this, of rs]
  have s2: "in_table ?s2 = in_table s + 1" "in_tr ?s2 = (if rs = [] then in_tr s else False)"
    "current_row ?s2 = (if rs = [] then current_row s else [])"
    "current_table ?s2 = current_table s @ kept_rows rs" "tables ?s2 = tables s"
    by (simp_all add: s1)
  have "in_table ?s2 \<ge> 2" using assms s2(1) by simp
  from endtag_table_nested [OF this] s2
  have "in_table (handle_endtag ?s2 ''table'') = in_table s
       \<and> in_tr (handle_endtag ?s2 ''table'') = (if rs = [] then in_tr s else False)
       \<and> current_row (handle_endtag ?s2 ''table'') = (if rs = [] then current_row s else [])
       \<and> current_table (handle_endtag ?s2 ''table'') = current_table s @ kept_rows rs
       \<and> tables (handle_endtag ?s2 ''table'') = tables s"
    by simp
  moreover have "feed s (table_events rs) = handle_endtag ?s2 ''table''"
    by (simp add: table_events_def feed_append)
  ultimately show ?thesis by simp
qed

lemma feed_empty_table_nested:
  assumes "in_table s \<ge> 1"
  shows "feed s (table_events []) = s"
  using assms by (simp add: table_events_def handle_starttag_def handle_endtag_def Let_def lower_tags)

lemma feed_nested_prefix:
  assumes "in_table s = 0"
  shows "in_table (feed s (nested_prefix ob cb t1)) = 1
       \<and> in_tr (feed s (nested_prefix ob cb t1))
       \<and> in_cell (feed s (nested_prefix ob cb t1))
       \<and> cell_buf (feed s (nested_prefix ob cb t1)) = [t1]
       \<and> current_row (feed s (nested_prefix ob cb t1)) = map norm_space cb
       \<and> current_table (feed s (nested_prefix ob cb t1)) = kept_rows ob
       \<and> tables (feed s (nested_prefix ob cb t1)) = tables s"
proof -
  let ?s1 = "handle_starttag s ''table''"
  have s1: "in_table ?s1 = 1" "current_table ?s1 = []" "tables ?s1 = tables s"
    using assms by (simp_all add: handle_starttag_def Let_def lower_tags)
  let ?s2 = "feed ?s1 (concat (map row_events ob))"
  have "in_table ?s1 \<ge> 1" using s1 by simp
  from feed_rows [OF this, of ob] s1
  have s2: "in_table ?s2 = 1" "current_table ?s2 = kept_rows ob" "tables ?s2 = tables s"
    by simp_all
  let ?s3 = "handle_starttag ?s2 ''tr''"
  have s3: "?s3 = ?s2\<lparr>in_tr := True, current_row := []\<rparr>"
    using s2 by (simp add: handle_starttag_def Let_def lower_tags)
  let ?s4 = "feed ?s3 (concat (map cell_events cb))"
  have "in_table ?s3 \<ge> 1" and "in_tr ?s3" using s2 by (simp_all add: s3)
  from feed_cells [OF this, of cb]
  have s4: "in_table ?s4 = 1" "in_tr ?s4" "current_row ?s4 = map norm_space cb"
    "current_table ?s4 = kept_rows ob" "tables ?s4 = tables s"
    using s2 by (simp_all add: s3)
  let ?s5 = "feed ?s4 [StartTag ''td'', Data t1]"
  have s5: "?s5 = ?s4\<lparr>in_cell := True, cell_buf := [t1]\<rparr>"
    using s4 by (simp add: handle_starttag_def handle_data_def Let_def lower_tags)
  have "feed s (nested_prefix ob cb t1) = ?s5"
    by (simp add: nested_prefix_def feed_append)
  with s4 s5 show ?thesis by simp
qed

lemma feed_nested_suffix_closed_row:
  assumes "in_table s = 1" and "\<not> in_tr s"
  shows "in_table (feed s (nested_suffix t2 ca oa)) = 0
       \<and> tables (feed s (nested_suffix t2 ca oa)) =
           tables s @ (if current_table s @ kept_rows oa = [] then []
                       else [current_table s @ kept_rows oa])"
proof -
  let ?e1 = "[Data t2, EndTag ''td''] @ concat (map cell_events ca) @ [EndTag ''tr'']"
  let ?s1 = "feed s ?e1"
  have "list_all cell_level ?e1" by (simp add: cell_level_cells lower_tags)
  from feed_outside_row [OF assms(2) this] assms(1)
  have s1: "in_table ?s1 = 1" "current_table ?s1 = current_table s" "tables ?s1 = tables s"
    by simp_all
  let ?s2 = "feed ?s1 (concat (map row_events oa))"
  have "in_table ?s1 \<ge> 1" using s1 by simp
  from feed_rows [OF this, of oa] s1
  have s2: "in_table ?s2 = 1" "current_table ?s2 = current_table s @ kept_rows oa"
    "tables ?s2 = tables s"
    by simp_all
  have "feed s (nested_suffix t2 ca oa) = handle_endtag ?s2 ''table''"
    by (simp add: nested_suffix_def feed_append)
  with endtag_table_outer [OF s2(1)] s2 show ?thesis by simp
qed

lemma feed_nested_suffix_open_row:
  assumes "in_table s = 1" and "in_tr s" and "in_cell s"
  shows "\<exists>mid. in_table (feed s (nested_suffix t2 ca oa)) = 0
       \<and> tables (feed s (nested_suffix t2 ca oa)) =
           tables s @ (if current_table s @ mid @ kept_rows oa = [] then []
                       else [current_table s @ mid @ kept_rows oa])"
proof -
  let ?s1 = "feed s [Data t2, EndTag ''td'']"
  have s1: "?s1 = s\<lparr>in_cell := False,
                     current_row := current_row s @ [norm_space (concat (cell_buf s @ [t2]))],
                     cell_buf := []\<rparr>"
    using assms by (simp add: handle_endtag_def handle_data_def Let_def lower_tags)
  let ?s2 = "feed ?s1 (concat (map cell_events ca))"
  have "in_table ?s1 \<ge> 1" and "in_tr ?s1" unfolding s1 using assms by simp_all
  from feed_cells [OF this, of ca]
  have s2: "in_table ?s2 = 1" "in_tr ?s2" "current_table ?s2 = current_table s"
    "tables ?s2 = tables s"
    unfolding s1 using assms by simp_all
  let ?s3 = "handle_endtag ?s2 ''tr''"
  let ?mid = "if any_nonblank (current_row ?s2) then [current_row ?s2] else []"
  have "in_table ?s2 \<ge> 1" using s2 by simp
  from endtag_tr [OF this s2(2)] s2
  have s3: "in_table ?s3 = 1" "current_table ?s3 = current_table s @ ?mid" "tables ?s3 = tables s"
    by simp_all
  let ?s4 = "feed ?s3 (concat (map row_events oa))"
  have "in_table ?s3 \<ge> 1" using s3 by simp
  from feed_rows [OF this, of oa] s3
  have s4: "in_table ?s4 = 1" "current_table ?s4 = current_table s @ ?mid @ kept_rows oa"
    "tables ?s4 = tables s"
    by simp_all
  have "feed s (nested_suffix t2 ca oa) = handle_endtag ?s4 ''table''"
    by (simp add: nested_suffix_def feed_append)
  with endtag_table_outer [OF s4(1)] s4
  have "in_table (feed s (nested_suffix t2 ca oa)) = 0
       \<and> tables (feed s (nested_suffix t2 ca oa)) =
           tables s @ (if current_table s @ ?mid @ kept_rows oa = [] then []
                       else [current_table s @ ?mid @ kept_rows oa])"
    by simp
  then show ?thesis by blast
qed

lemma tables_nested:
  assumes "in_table s = 0"
  shows "\<exists>mid. in_table (feed s (nested_table_events ob cb t1 inner t2 ca oa)) = 0
       \<and> tables (feed s (nested_table_events ob cb t1 inner t2 ca oa)) =
           tables s @ (if kept_rows ob @ kept_rows inner @ mid @ kept_rows oa = [] then []
                       else [kept_rows ob @ kept_rows inner @ mid @ kept_rows oa])"
proof -
  let ?s1 = "feed s (nested_prefix ob cb t1)"
  note p = feed_nested_prefix [OF assms, of ob cb t1]
  let ?s2 = "feed ?s1 (table_events inner)"
  have f: "feed s (nested_table_events ob cb t1 inner t2 ca oa) = feed ?s2 (nested_suffix t2 ca oa)"
    by (simp add: nested_table_events_def feed_append)
  have ge: "in_table ?s1 \<ge> 1" using p by simp
  show ?thesis
  proof (cases "inner = []")
    case True
    with feed_empty_table_nested [OF ge] have e: "?s2 = ?s1" by simp
    from p have "in_table ?s1 = 1" "in_tr ?s1" "in_cell ?s1" by simp_all
    from feed_nested_suffix_open_row [OF this, of t2 ca oa] obtain mid where
      "in_table (feed ?s1 (nested_suffix t2 ca oa)) = 0
       \<and> tables (feed ?s1 (nested_suffix t2 ca oa)) =
           tables ?s1 @ (if current_table ?s1 @ mid @ kept_rows oa = [] then []
                       else [current_table ?s1 @ mid @ kept_rows oa])"
      by blast
    with p e f True have "in_table (feed s (nested_table_events ob cb t1 inner t2 ca oa)) = 0
       \<and> tables (feed s (nested_table_events ob cb t1 inner t2 ca oa)) =
           tables s @ (if kept_rows ob @ kept_rows inner @ mid @ kept_rows oa = [] then []
                       else [kept_rows ob @ kept_rows inner @ mid @ kept_rows oa])"
      by (simp add: kept_rows_def)
    then show ?thesis by blast
  next
    case False
    from feed_table_nested [OF ge, of inner] False p
    have s2: "in_table ?s2 = 1" "\<not> in_tr ?s2" "current_table ?s2 = kept_rows ob @ kept_rows inner"
      "tables ?s2 = tables s"
      by simp_all
    from feed_nested_suffix_closed_row [OF s2(1) s2(2), of t2 ca oa] s2 f
    have "in_table (feed s (nested_table_events ob cb t1 inner t2 ca oa)) = 0
       \<and> tables (feed s (nested_table_events ob cb t1 inner t2 ca oa)) =
           tables s @ (if kept_rows ob @ kept_rows inner @ [] @ kept_rows oa = [] then []
                       else [kept_rows ob @ kept_rows inner @ [] @ kept_rows oa])"
      by simp
    then show ?thesis by blast
  qed
qed

lemma tables_loop_single: "tables_loop d [] [t] = table_step d [] t"
proof -
  obtain out where "table_step d [] t = Inr out" using table_step_total by blast
  then show ?thesis by simp
qed

section \<open>Marked sections\<close>

lemma marked_section_foo: "parse_marked_section ''foo]>'' = Inl AssertionError"
  by code_simp

lemma marked_section_no_name: "parse_marked_section '']>'' = Inl AssertionError"
  by code_simp

lemma marked_section_cdata: "parse_marked_section ''cdata[x]]>tail'' = Inr (Some ''tail'')"
  by code_simp

section \<open>Claims about the classifier\<close>

text \<open>
  Claim C3. The header row chosen by the classifier is the first row of the table, in
  order, that has a cell equal to \<^verbatim>\<open>unit\<close> and a cell equal to or beginning with
  \<^verbatim>\<open>power\<close> after normalising and lower-casing its cells; the headers are the
  normalised, lower-cased cells of that row. When no row qualifies the search returns no
  index and the table adds no record to the output.
\<close>

theorem header_row_first_qualifying:
  "(case find_header_from 0 t of
      (None, hs) \<Rightarrow> (\<forall>row \<in> set t. \<not> qualifies_as_header row) \<and> table_step d out t = Inr out
    | (Some i, hs) \<Rightarrow>
        i < length t \<and> qualifies_as_header (t ! i) \<and> (\<forall>j < i. \<not> qualifies_as_header (t ! j))
        \<and> hs = map (\<lambda>c. lower (norm_space c)) (t ! i))
   \<and> ((\<forall>row \<in> set t. \<not> qualifies_as_header row) \<longrightarrow> table_step d out t = Inr out)"
proof -
  obtain a hs where f: "find_header_from 0 t = (a, hs)" by (cases "find_header_from 0 t") simp
  have "(case (a, hs) of
      (None, hs) \<Rightarrow> (\<forall>row \<in> set t. \<not> qualifies_as_header row) \<and> table_step d out t = Inr out
    | (Some i, hs) \<Rightarrow>
        i < length t \<and> qualifies_as_header (t ! i) \<and> (\<forall>j < i. \<not> qualifies_as_header (t ! j))
        \<and> hs = map (\<lambda>c. lower (norm_space c)) (t ! i))"
  proof (cases a)
    case None
    with f have "fst (find_header_from 0 t) = None" by simp
    then have "\<forall>row \<in> set t. \<not> qualifies_as_header row" by (simp add: find_header_from_None)
    with None show ?thesis by (simp add: table_step_no_header)
  next
    case (Some i)
    with f find_header_from_Some [of 0 t i hs] show ?thesis by (simp add: lowered_row_def)
  qed
  with f show ?thesis by (simp add: table_step_no_header)
qed

theorem header_row_first_qualifying_witness:
  "(1 < length [[''x''], [''Unit '', ''POWER(%)'']]
     \<and> qualifies_as_header ([[''x''], [''Unit '', ''POWER(%)'']] ! 1)
     \<and> \<not> qualifies_as_header ([[''x''], [''Unit '', ''POWER(%)'']] ! 0))
   \<and> \<not> qualifies_as_header [''a'', ''b'']
   \<and> table_step date0 [] [[''a'', ''b'']] = Inr []"
proof -
  have f: "find_header_from 0 [[''x''], [''Unit '', ''POWER(%)'']] = (Some 1, [''unit'', ''power(%)''])"
    by code_simp
  have n: "\<not> qualifies_as_header [''a'', ''b'']" by code_simp
  from header_row_first_qualifying [of "[[''x''], [''Unit '', ''POWER(%)'']]" date0 "[]"] f
  have a: "1 < length [[''x''], [''Unit '', ''POWER(%)'']]
     \<and> qualifies_as_header ([[''x''], [''Unit '', ''POWER(%)'']] ! 1)
     \<and> \<not> qualifies_as_header ([[''x''], [''Unit '', ''POWER(%)'']] ! 0)"
    by simp
  from header_row_first_qualifying [of "[[''a'', ''b'']]" date0 "[]"] n
  have "table_step date0 [] [[''a'', ''b'']] = Inr []" by simp
  with a n show ?thesis by blast
qed

text \<open>
  Claim C4. For a table with a detected header row, when no header cell is \<^verbatim>\<open>unit\<close>
  or begins with \<^verbatim>\<open>unit\<close> and a space, or no header cell is \<^verbatim>\<open>power\<close> or begins
  with \<^verbatim>\<open>power\<close> and a space, the table adds no record to the output, whatever its
  data rows are.
\<close>

theorem unresolved_column_no_records:
  assumes "find_header_from 0 t = (Some i, hs)"
    and "(\<forall>h \<in> set hs. \<not> (h = ''unit'' \<or> startswith h ''unit ''))
         \<or> (\<forall>h \<in> set hs. \<not> (h = ''power'' \<or> startswith h ''power ''))"
  shows "table_step d out t = Inr out"
proof -
  from assms(2) have "find_col_idx hs unit_pred = None \<or> find_col_idx hs power_pred = None"
    by (simp add: find_col_idx_def find_col_from_None unit_pred_def power_pred_def)
  with assms(1) show ?thesis by (rule table_step_missing_col)
qed

theorem unresolved_column_no_records_witness:
  "find_header_from 0 [[''Unit'', ''Power(%)''], [''1'', ''100'']] = (Some 0, [''unit'', ''power(%)''])
   \<and> \<not> power_pred ''unit'' \<and> \<not> power_pred ''power(%)''
   \<and> table_step date0 [] [[''Unit'', ''Power(%)''], [''1'', ''100'']] = Inr []"
proof -
  have f: "find_header_from 0 [[''Unit'', ''Power(%)''], [''1'', ''100'']] = (Some 0, [''unit'', ''power(%)''])"
    by code_simp
  have n: "\<not> power_pred ''unit''" "\<not> power_pred ''power(%)''"
    by (simp_all add: power_pred_def startswith_def)
  then have "(\<forall>h \<in> set [''unit'', ''power(%)'']. \<not> (h = ''unit'' \<or> startswith h ''unit ''))
         \<or> (\<forall>h \<in> set [''unit'', ''power(%)'']. \<not> (h = ''power'' \<or> startswith h ''power ''))"
    by (simp add: power_pred_def)
  from unresolved_column_no_records [OF f this, of date0 "[]"] f n show ?thesis by blast
qed

text \<open>
  Claim C5. For a table with a detected header row and resolved unit and power columns,
  the records added are those of the rows strictly after the header, in order, each row
  on its own: a row is skipped exactly when it does not cover both column indices, or
  its normalised unit cell is empty, or that cell lower-cased is \<^verbatim>\<open>unit\<close>; every other
  row gives one record with the caller's date and the normalised unit, power and reason
  cells, the reason being empty when its column is unresolved or beyond the row
  (\<open>record_of_row\<close>). A skipped row does not stop the rows after it.
\<close>

theorem data_rows_classified:
  assumes "find_header_from 0 t = (Some i, hs)"
    and "find_col_idx hs unit_pred = Some ui"
    and "find_col_idx hs power_pred = Some pi"
  shows "table_step d out t =
     Inr (out @ List.map_filter (record_of_row d ui pi (find_col_idx hs reason_pred))
                  (drop (Suc i) t))"
  using assms by (rule table_step_header)

theorem data_rows_classified_witness:
  "find_header_from 0 table5 = (Some 0, [''unit'', ''power'', ''reason or comment''])
   \<and> find_col_idx [''unit'', ''power'', ''reason or comment''] unit_pred = Some 0
   \<and> find_col_idx [''unit'', ''power'', ''reason or comment''] power_pred = Some 1
   \<and> table_step date0 [] table5 =
       Inr [\<lparr>report_date = date0, row_unit = ''1'', row_power = ''100'', row_reason = ''ok''\<rparr>,
            \<lparr>report_date = date0, row_unit = ''3'', row_power = ''50'', row_reason = ''''\<rparr>]"
proof -
  have f: "find_header_from 0 table5 = (Some 0, [''unit'', ''power'', ''reason or comment''])"
    by code_simp
  have u: "find_col_idx [''unit'', ''power'', ''reason or comment''] unit_pred = Some 0"
    by code_simp
  have p: "find_col_idx [''unit'', ''power'', ''reason or comment''] power_pred = Some 1"
    by code_simp
  have r: "find_col_idx [''unit'', ''power'', ''reason or comment''] reason_pred = Some 2"
    by code_simp
  have m: "List.map_filter (record_of_row date0 0 1 (Some 2)) (drop (Suc 0) table5) =
       [\<lparr>report_date = date0, row_unit = ''1'', row_power = ''100'', row_reason = ''ok''\<rparr>,
        \<lparr>report_date = date0, row_unit = ''3'', row_power = ''50'', row_reason = ''''\<rparr>]"
    by code_simp
  from data_rows_classified [OF f u p, of date0 "[]"] f u p r m show ?thesis by simp
qed

section \<open>Claims about the whole run\<close>

text \<open>
  Claim C6, as stated, fails: the text \<^verbatim>\<open><![foo]>\<close> is a marked section with an unknown
  keyword, on which the tokenizer raises \<^verbatim>\<open>AssertionError\<close>; \<^verbatim>\<open>parse_rows\<close> does not
  catch it.
\<close>

theorem tokenizer_error_counterexample:
  "parse_rows_text (html_feed sample_rest_of_feed) date0 ''<![foo]>'' = Inl AssertionError"
  by (simp add: parse_rows_text_def html_feed_def startswith_def marked_section_foo)

text \<open>
  Claim C6, amended. For every input text on which the tokenizer completes, whatever
  handler calls it makes (malformed markup with unmatched end tags or missing close tags
  included), extraction followed by classification returns a list of records and never an
  error; an exception of the tokenizer is the outcome of \<^verbatim>\<open>parse_rows\<close>, and the
  tokenizer of the standard library raises one on the text \<^verbatim>\<open><![foo]>\<close>; and an end tag
  for which no element is open leaves the state of the extractor unchanged.
\<close>

theorem scan_total_after_tokenizing:
  "(html_parser html = Inr calls \<longrightarrow> parse_rows_text html_parser d html = parse_rows d calls)
   \<and> (\<exists>rs. parse_rows d calls = Inr rs)
   \<and> (html_parser html = Inl e \<longrightarrow> parse_rows_text html_parser d html = Inl e)
   \<and> parse_rows_text (html_feed rest_of_feed) d ''<![foo]>'' = Inl AssertionError
   \<and> (\<not> has_open_element s tag \<longrightarrow> handle_endtag s tag = s)"
proof -
  have a: "html_parser html = Inr calls \<longrightarrow> parse_rows_text html_parser d html = parse_rows d calls"
    by (simp add: parse_rows_text_def)
  have b: "\<exists>rs. parse_rows d calls = Inr rs" by (simp add: parse_rows_eq tables_loop_total)
  have c: "html_parser html = Inl e \<longrightarrow> parse_rows_text html_parser d html = Inl e"
    by (simp add: parse_rows_text_def)
  have f: "parse_rows_text (html_feed rest_of_feed) d ''<![foo]>'' = Inl AssertionError"
    by (simp add: parse_rows_text_def html_feed_def startswith_def marked_section_foo)
  have g: "\<not> has_open_element s tag \<longrightarrow> handle_endtag s tag = s"
    by (auto simp: has_open_element_def handle_endtag_def Let_def split: if_splits)
  from a b c f g show ?thesis by blast
qed

theorem scan_total_after_tokenizing_witness:
  "html_feed sample_rest_of_feed ''<![cdata[x]]>tail'' = Inr sample_calls
   \<and> parse_rows_text (html_feed sample_rest_of_feed) date0 ''<![cdata[x]]>tail''
       = parse_rows date0 sample_calls
   \<and> (\<exists>rs. parse_rows date0 sample_calls = Inr rs)
   \<and> html_feed sample_rest_of_feed ''<![]>'' = Inl AssertionError
   \<and> parse_rows_text (html_feed sample_rest_of_feed) date0 ''<![]>'' = Inl AssertionError
   \<and> \<not> has_open_element TableExtractor_init ''td''
   \<and> handle_endtag TableExtractor_init ''td'' = TableExtractor_init"
proof -
  have n: "\<not> has_open_element TableExtractor_init ''td''"
    by (simp add: has_open_element_def lower_tags TableExtractor_init_def)
  have t: "html_feed sample_rest_of_feed ''<![cdata[x]]>tail'' = Inr sample_calls"
    by (simp add: html_feed_def startswith_def marked_section_cdata sample_rest_of_feed_def)
  have u: "html_feed sample_rest_of_feed ''<![]>'' = Inl AssertionError"
    by (simp add: html_feed_def startswith_def marked_section_no_name)
  note w1 = scan_total_after_tokenizing [of "html_feed sample_rest_of_feed" "''<![cdata[x]]>tail''"
      sample_calls date0 AssertionError sample_rest_of_feed TableExtractor_init "''td''"]
  note w2 = scan_total_after_tokenizing [of "html_feed sample_rest_of_feed" "''<![]>''"
      sample_calls date0 AssertionError sample_rest_of_feed TableExtractor_init "''td''"]
  from w1 w2 n t u show ?thesis by blast
qed

section \<open>Claims about cells\<close>

text \<open>
  Claim C9. Inside a table cell a \<^verbatim>\<open>br\<close> or \<^verbatim>\<open>p\<close> start tag appends one space to the
  cell buffer. At the end of the cell the joined buffer is normalised and appended to the
  row: in the normalised text every whitespace character is a space, no two whitespace
  characters are neighbours, the text neither begins nor ends with whitespace, and its
  words are those of the buffered text. A cell holding \<^verbatim>\<open>Palo<br>Verde\<close> followed by
  stray spaces gives the cell text \<^verbatim>\<open>Palo Verde\<close>.
\<close>

theorem cell_text_normalised:
  "(in_table s \<ge> 1 \<and> in_cell s \<and> (lower tag = ''br'' \<or> lower tag = ''p'')
      \<longrightarrow> handle_starttag s tag = s\<lparr>cell_buf := cell_buf s @ ['' '']\<rparr>)
   \<and> (in_table s \<ge> 1 \<and> in_tr s \<and> in_cell s \<and> (lower tag' = ''td'' \<or> lower tag' = ''th'')
      \<longrightarrow> handle_endtag s tag' =
            s\<lparr>in_cell := False,
              current_row := current_row s @ [norm_space (concat (cell_buf s))],
              cell_buf := []\<rparr>)
   \<and> (\<forall>c \<in> set (norm_space raw). isspace c \<longrightarrow> c = CHR '' '')
   \<and> no_adjacent_ws (norm_space raw)
   \<and> (norm_space raw \<noteq> [] \<longrightarrow>
        \<not> isspace (hd (norm_space raw)) \<and> \<not> isspace (last (norm_space raw)))
   \<and> words_ws (norm_space raw) = words_ws raw
   \<and> (in_table s \<ge> 1 \<and> in_tr s
      \<longrightarrow> current_row (feed s [StartTag ''td'', Data ''Palo'', StartTag ''br'',
                                 Data ''Verde   '', EndTag ''td''])
           = current_row s @ [''Palo Verde''])"
proof -
  have a: "in_table s \<ge> 1 \<and> in_cell s \<and> (lower tag = ''br'' \<or> lower tag = ''p'')
      \<longrightarrow> handle_starttag s tag = s\<lparr>cell_buf := cell_buf s @ ['' '']\<rparr>"
    by (auto simp: handle_starttag_def Let_def)
  have b: "in_table s \<ge> 1 \<and> in_tr s \<and> in_cell s \<and> (lower tag' = ''td'' \<or> lower tag' = ''th'')
      \<longrightarrow> handle_endtag s tag' =
            s\<lparr>in_cell := False,
              current_row := current_row s @ [norm_space (concat (cell_buf s))],
              cell_buf := []\<rparr>"
    by (auto simp: handle_endtag_def Let_def)
  have c: "\<forall>c \<in> set (norm_space raw). isspace c \<longrightarrow> c = CHR '' ''"
    using norm_space_only_space by blast
  have d: "in_table s \<ge> 1 \<and> in_tr s
      \<longrightarrow> current_row (feed s [StartTag ''td'', Data ''Palo'', StartTag ''br'',
                                 Data ''Verde   '', EndTag ''td''])
           = current_row s @ [''Palo Verde'']"
  proof
    assume "in_table s \<ge> 1 \<and> in_tr s"
    then have "current_row (feed s [StartTag ''td'', Data ''Palo'', StartTag ''br'',
                                 Data ''Verde   '', EndTag ''td''])
           = current_row s @ [norm_space (concat [''Palo'', '' '', ''Verde   ''])]"
      by (simp add: handle_starttag_def handle_endtag_def handle_data_def Let_def lower_tags)
    then show "current_row (feed s [StartTag ''td'', Data ''Palo'', StartTag ''br'',
                                 Data ''Verde   '', EndTag ''td''])
           = current_row s @ [''Palo Verde'']"
      by (simp only: norm_space_palo)
  qed
  note e = norm_space_no_adjacent [of raw]
  note f = norm_space_trimmed [of raw]
  note g = words_ws_norm_space [of raw]
  from a b c d e f g show ?thesis by blast
qed

theorem cell_text_normalised_witness:
  "handle_starttag open_cell_state ''br'' = open_cell_state\<lparr>cell_buf := [''Palo'', '' '']\<rparr>
   \<and> handle_endtag open_cell_state ''td'' =
       open_cell_state\<lparr>in_cell := False, current_row := [''x'', ''Palo''], cell_buf := []\<rparr>
   \<and> norm_space ''  a   b '' = ''a b''
   \<and> \<not> isspace (hd (norm_space ''  a   b ''))
   \<and> current_row (feed open_cell_state [StartTag ''td'', Data ''Palo'', StartTag ''br'',
                                        Data ''Verde   '', EndTag ''td''])
       = [''x'', ''Palo Verde'']"
proof -
  have p: "in_table open_cell_state \<ge> 1" "in_tr open_cell_state" "in_cell open_cell_state"
    "cell_buf open_cell_state = [''Palo'']" "current_row open_cell_state = [''x'']"
    by (simp_all add: open_cell_state_def)
  have n: "norm_space ''  a   b '' = ''a b''" by code_simp
  have m: "norm_space (concat [''Palo'']) = ''Palo''" by code_simp
  from cell_text_normalised [of open_cell_state "''br''" "''td''" "''  a   b ''"] p n m
  show ?thesis by (simp add: lower_tags)
qed

text \<open>
  Claim C10, as stated, fails: a cell start tag that arrives while a cell is open but its
  row has already been closed is ignored, and the buffered text of the unclosed cell
  stays in the buffer; here it ends up merged into a cell of the next row.
\<close>

theorem unclosed_cell_kept_counterexample:
  "in_cell (feed TableExtractor_init unclosed_cell_doc)
   \<and> cell_buf (feed TableExtractor_init unclosed_cell_doc) = [''a'']
   \<and> cell_buf (handle_starttag (feed TableExtractor_init unclosed_cell_doc) ''td'') = [''a'']
   \<and> tables (feed TableExtractor_init
         (unclosed_cell_doc @ [StartTag ''td'', Data ''b'', StartTag ''tr'', EndTag ''td'',
                               EndTag ''tr'', EndTag ''table''])) = [[[''ab'']]]"
  by code_simp

text \<open>
  Claim C10, amended. When a \<^verbatim>\<open>td\<close> or \<^verbatim>\<open>th\<close> start tag arrives inside an open row of
  a table while a cell is still open, the text buffered for the unclosed cell is
  discarded: the buffer is emptied, nothing else changes, and the row gets no entry for
  the unclosed cell, only the one of the cell that follows.
\<close>

theorem unclosed_cell_discarded:
  assumes "in_table s \<ge> 1" and "in_tr s" and "in_cell s"
    and "lower tag = ''td'' \<or> lower tag = ''th''"
  shows "handle_starttag s tag = s\<lparr>cell_buf := []\<rparr>
       \<and> current_row (feed s [StartTag tag, Data b, EndTag ''td'']) = current_row s @ [norm_space b]"
proof -
  have a: "handle_starttag s tag = s\<lparr>cell_buf := []\<rparr>"
    using assms by (auto simp: handle_starttag_def Let_def)
  have "current_row (feed (s\<lparr>cell_buf := []\<rparr>) [Data b, EndTag ''td'']) = current_row s @ [norm_space b]"
    using assms by (simp add: handle_endtag_def handle_data_def Let_def lower_tags)
  with a show ?thesis by simp
qed

theorem unclosed_cell_discarded_witness:
  "handle_starttag open_cell_state ''th'' = open_cell_state\<lparr>cell_buf := []\<rparr>
   \<and> current_row (feed open_cell_state [StartTag ''th'', Data ''Verde'', EndTag ''td''])
       = [''x'', ''Verde'']"
proof -
  have p: "in_table open_cell_state \<ge> 1" "in_tr open_cell_state" "in_cell open_cell_state"
    by (simp_all add: open_cell_state_def)
  have t: "lower ''th'' = ''td'' \<or> lower ''th'' = ''th''" by (simp add: lower_tags)
  have c: "current_row open_cell_state = [''x'']" by (simp add: open_cell_state_def)
  have n: "norm_space ''Verde'' = ''Verde''" by code_simp
  note w = unclosed_cell_discarded [OF p t, of "''Verde''"]
  note a = conjunct1 [OF w] and b = conjunct2 [OF w]
  show ?thesis unfolding a b c n by simp
qed

section \<open>Claims about single tables\<close>

text \<open>
  Claim C1, as stated, fails: for the table with header row \<^verbatim>\<open>Unit\<close>, \<^verbatim>\<open>Power(%)\<close>,
  \<^verbatim>\<open>Reason\<close> and data row \<^verbatim>\<open>1\<close>, \<^verbatim>\<open>100\<close>, \<^verbatim>\<open>None\<close> the result is the empty list.
\<close>

theorem power_percent_header_counterexample:
  "parse_rows date0 (table_events claimed_rows) = Inr []"
  using parse_rows_claimed_rows [OF no_table_start_Nil no_table_start_Nil, of date0] by simp

text \<open>
  Claim C1, amended. For every document that holds exactly one table, written out in
  full, with header row \<^verbatim>\<open>Unit\<close>, \<^verbatim>\<open>Power(%)\<close>, \<^verbatim>\<open>Reason\<close> and the single data row
  \<^verbatim>\<open>1\<close>, \<^verbatim>\<open>100\<close>, \<^verbatim>\<open>None\<close>, extraction followed by classification returns no record:
  the cell \<^verbatim>\<open>power(%)\<close> passes the header test but is neither \<^verbatim>\<open>power\<close> nor begins
  with \<^verbatim>\<open>power\<close> and a space, so no power column is resolved. With the header row
  \<^verbatim>\<open>Unit\<close>, \<^verbatim>\<open>Power (%)\<close>, \<^verbatim>\<open>Reason/Comment\<close> the same data row gives exactly one record,
  with unit \<^verbatim>\<open>1\<close>, power \<^verbatim>\<open>100\<close> and reason \<^verbatim>\<open>None\<close>.
\<close>

theorem power_percent_header_no_records:
  assumes "no_table_start pre" and "no_table_start post"
  shows "parse_rows d (pre @ table_events claimed_rows @ post) = Inr []
       \<and> parse_rows d (pre @ table_events resolved_rows @ post) =
           Inr [\<lparr>report_date = d, row_unit = ''1'', row_power = ''100'', row_reason = ''None''\<rparr>]"
  using parse_rows_claimed_rows [OF assms] parse_rows_resolved_rows [OF assms] by blast

theorem power_percent_header_no_records_witness:
  "no_table_start [Data ''x'', EndTag ''table''] \<and> no_table_start [StartTag ''p'']
   \<and> parse_rows date0 ([Data ''x'', EndTag ''table''] @ table_events claimed_rows
                        @ [StartTag ''p'']) = Inr []
   \<and> parse_rows date0 ([Data ''x'', EndTag ''table''] @ table_events resolved_rows
                        @ [StartTag ''p'']) =
       Inr [\<lparr>report_date = date0, row_unit = ''1'', row_power = ''100'',
              row_reason = ''None''\<rparr>]"
proof -
  have p: "no_table_start [Data ''x'', EndTag ''table'']" "no_table_start [StartTag ''p'']"
    by (simp_all add: no_table_start_def lower_tags)
  from power_percent_header_no_records [OF p, of date0] p show ?thesis by blast
qed

text \<open>
  Claim C8, as stated, fails: a field is stripped after its delimiters are replaced, so
  the unit \<^verbatim>\<open>|1\<close> is written as \<^verbatim>\<open>1\<close>, not as a space followed by \<^verbatim>\<open>1\<close>.
\<close>

theorem to_psv_counterexample:
  "to_psv bar_row = ''3/15/1999|1|97|''
   \<and> psv_line_as_claimed bar_row = ''3/15/1999| 1|97|''"
  by code_simp

text \<open>
  Claim C8, amended. Every record is written as one line of four fields separated by
  \<^verbatim>\<open>|\<close>: the date as month, day and year in decimal without padding, joined by
  \<^verbatim>\<open>/\<close>, then unit, power and reason, each with every \<^verbatim>\<open>|\<close> replaced by a space and
  then stripped of whitespace at both ends; no field contains the delimiter, so cutting
  the line at the delimiters gives back exactly these four fields. The document with rows
  \<^verbatim>\<open>Unit\<close>, \<^verbatim>\<open>Power\<close>, \<^verbatim>\<open>Reason/Comment\<close>; \<^verbatim>\<open>Unit 1\<close>, \<^verbatim>\<open>97\<close>, \<^verbatim>\<open>N/A\<close>; \<^verbatim>\<open>Unit 2\<close>,
  \<^verbatim>\<open>0\<close>, \<^verbatim>\<open>Refueling Outage\<close> and the date 1999-03-15 gives the lines
  \<^verbatim>\<open>3/15/1999|Unit 1|97|N/A\<close> and \<^verbatim>\<open>3/15/1999|Unit 2|0|Refueling Outage\<close>.
\<close>

theorem to_psv_line:
  "split_bar (to_psv r) =
     [str_nat (month (report_date r)) @ ''/'' @ str_nat (day (report_date r)) @ ''/''
        @ str_nat (year (report_date r)),
      strip (map (\<lambda>c. if c = CHR ''|'' then CHR '' '' else c) (row_unit r)),
      strip (map (\<lambda>c. if c = CHR ''|'' then CHR '' '' else c) (row_power r)),
      strip (map (\<lambda>c. if c = CHR ''|'' then CHR '' '' else c) (row_reason r))]
   \<and> (no_table_start pre \<and> no_table_start post \<longrightarrow>
        map_sum id (map to_psv) (parse_rows date0 (pre @ table_events scenario_rows @ post))
        = Inr [''3/15/1999|Unit 1|97|N/A'', ''3/15/1999|Unit 2|0|Refueling Outage''])"
proof -
  have a: "split_bar (to_psv r) =
     [str_nat (month (report_date r)) @ ''/'' @ str_nat (day (report_date r)) @ ''/''
        @ str_nat (year (report_date r)),
      strip (map (\<lambda>c. if c = CHR ''|'' then CHR '' '' else c) (row_unit r)),
      strip (map (\<lambda>c. if c = CHR ''|'' then CHR '' '' else c) (row_power r)),
      strip (map (\<lambda>c. if c = CHR ''|'' then CHR '' '' else c) (row_reason r))]"
    using split_bar_to_psv [of r] by (simp only: safe_psv_field_def replace_bar_def)
  have b: "no_table_start pre \<and> no_table_start post \<longrightarrow>
        map_sum id (map to_psv) (parse_rows date0 (pre @ table_events scenario_rows @ post))
        = Inr [''3/15/1999|Unit 1|97|N/A'', ''3/15/1999|Unit 2|0|Refueling Outage'']"
  proof
    assume "no_table_start pre \<and> no_table_start post"
    then have "parse_rows date0 (pre @ table_events scenario_rows @ post) =
     Inr [\<lparr>report_date = date0, row_unit = ''Unit 1'', row_power = ''97'', row_reason = ''N/A''\<rparr>,
          \<lparr>report_date = date0, row_unit = ''Unit 2'', row_power = ''0'',
            row_reason = ''Refueling Outage''\<rparr>]"
      using parse_rows_scenario by blast
    then show "map_sum id (map to_psv) (parse_rows date0 (pre @ table_events scenario_rows @ post))
        = Inr [''3/15/1999|Unit 1|97|N/A'', ''3/15/1999|Unit 2|0|Refueling Outage'']"
      by (simp add: to_psv_scenario)
  qed
  from a b show ?thesis by blast
qed

theorem to_psv_line_witness:
  "no_table_start [Data ''x'', EndTag ''table''] \<and> no_table_start [StartTag ''p'']
   \<and> map_sum id (map to_psv)
        (parse_rows date0 ([Data ''x'', EndTag ''table''] @ table_events scenario_rows
                           @ [StartTag ''p'']))
      = Inr [''3/15/1999|Unit 1|97|N/A'', ''3/15/1999|Unit 2|0|Refueling Outage'']
   \<and> split_bar (to_psv bar_row) = [''3/15/1999'', ''1'', ''97'', []]"
proof -
  have p: "no_table_start [Data ''x'', EndTag ''table'']" "no_table_start [StartTag ''p'']"
    by (simp_all add: no_table_start_def lower_tags)
  have s: "split_bar (to_psv bar_row) = [''3/15/1999'', ''1'', ''97'', []]" by code_simp
  from to_psv_line [of bar_row "[Data ''x'', EndTag ''table'']" "[StartTag ''p'']"] p s
  show ?thesis by blast
qed

section \<open>Claims about nested tables\<close>

text \<open>
  Claim C2, as stated, fails: for an outer table whose data row holds a nested table in
  its reason cell the table list has one entry, not two; it holds the outer header row
  followed by the rows of the inner table.
\<close>

theorem nested_table_counterexample:
  "tables (feed TableExtractor_init nested_example) =
     [[[''Unit'', ''Power'', ''Reason or Comment''], [''Unit'', ''Power''], [''2'', ''50'']]]"
  by code_simp

text \<open>
  Claim C2, amended. For every document containing a table nested inside a cell of a row
  of an outer table, the table list has a single entry for the whole nesting (and none
  when no captured row has a non-blank cell): the start tag of the nested table only
  raises the depth, and the rows of the inner table are captured in document order into
  the entry of the outer table, after the outer rows closed before the nested table and
  before those that follow it. That entry is classified once, as one table.
\<close>

theorem nested_table_single_entry:
  assumes "no_table_start pre" and "no_table_start post"
  shows "\<exists>mid.
           tables (feed TableExtractor_init
                    (pre @ nested_table_events ob cb t1 inner t2 ca oa @ post)) =
             (if kept_rows ob @ kept_rows inner @ mid @ kept_rows oa = [] then []
              else [kept_rows ob @ kept_rows inner @ mid @ kept_rows oa])
         \<and> parse_rows d (pre @ nested_table_events ob cb t1 inner t2 ca oa @ post) =
             (if kept_rows ob @ kept_rows inner @ mid @ kept_rows oa = [] then Inr []
              else table_step d [] (kept_rows ob @ kept_rows inner @ mid @ kept_rows oa))"
proof -
  have i: "in_table TableExtractor_init = 0" by (simp add: TableExtractor_init_def)
  have a: "feed TableExtractor_init pre = TableExtractor_init"
    using i assms(1) by (rule feed_idle)
  let ?s = "feed TableExtractor_init (nested_table_events ob cb t1 inner t2 ca oa)"
  from tables_nested [OF i, of ob cb t1 inner t2 ca oa] obtain mid where
    m: "in_table ?s = 0"
       "tables ?s = tables TableExtractor_init
          @ (if kept_rows ob @ kept_rows inner @ mid @ kept_rows oa = [] then []
             else [kept_rows ob @ kept_rows inner @ mid @ kept_rows oa])"
    by blast
  from m(1) assms(2) have "feed ?s post = ?s" by (rule feed_idle)
  with a m(2)
  have t: "tables (feed TableExtractor_init
                    (pre @ nested_table_events ob cb t1 inner t2 ca oa @ post)) =
             (if kept_rows ob @ kept_rows inner @ mid @ kept_rows oa = [] then []
              else [kept_rows ob @ kept_rows inner @ mid @ kept_rows oa])"
    by (simp add: feed_append TableExtractor_init_def)
  have "parse_rows d (pre @ nested_table_events ob cb t1 inner t2 ca oa @ post) =
             (if kept_rows ob @ kept_rows inner @ mid @ kept_rows oa = [] then Inr []
              else table_step d [] (kept_rows ob @ kept_rows inner @ mid @ kept_rows oa))"
  proof (cases "kept_rows ob @ kept_rows inner @ mid @ kept_rows oa = []")
    case True
    with t show ?thesis by (simp add: parse_rows_eq)
  next
    case False
    with t have "parse_rows d (pre @ nested_table_events ob cb t1 inner t2 ca oa @ post) =
        tables_loop d [] [kept_rows ob @ kept_rows inner @ mid @ kept_rows oa]"
      by (simp only: parse_rows_eq if_False)
    with False show ?thesis by (simp only: tables_loop_single if_False)
  qed
  with t show ?thesis by blast
qed

theorem nested_table_single_entry_witness:
  "no_table_start [Data ''x''] \<and> no_table_start [EndTag ''table'']
   \<and> (\<exists>mid.
           tables (feed TableExtractor_init
                    ([Data ''x''] @ nested_table_events [[''Unit'', ''Power'']] [''1'', ''100''] []
                        [[''2'', ''50'']] [] [] [] @ [EndTag ''table''])) =
             (if kept_rows [[''Unit'', ''Power'']] @ kept_rows [[''2'', ''50'']] @ mid
                  @ kept_rows [] = [] then []
              else [kept_rows [[''Unit'', ''Power'']] @ kept_rows [[''2'', ''50'']] @ mid
                    @ kept_rows []])
         \<and> parse_rows date0
              ([Data ''x''] @ nested_table_events [[''Unit'', ''Power'']] [''1'', ''100''] []
                 [[''2'', ''50'']] [] [] [] @ [EndTag ''table'']) =
             (if kept_rows [[''Unit'', ''Power'']] @ kept_rows [[''2'', ''50'']] @ mid
                  @ kept_rows [] = [] then Inr []
              else table_step date0 []
                     (kept_rows [[''Unit'', ''Power'']] @ kept_rows [[''2'', ''50'']] @ mid
                      @ kept_rows [])))"
proof -
  have p: "no_table_start [Data ''x'']" "no_table_start [EndTag ''table'']"
    by (simp_all add: no_table_start_def)
  from nested_table_single_entry [OF p, of "[[''Unit'', ''Power'']]" "[''1'', ''100'']" "[]"
      "[[''2'', ''50'']]" "[]" "[]" "[]" date0] p
  show ?thesis by blast
qed

end
